theory Spec2Isabelle
  imports Main "HOL-Library.Sublist"
begin

section \<open>Python string operations used by the crawler\<close>

text \<open>
  Strings are lists of characters. The operations below are the ones the source calls on
  \<^verbatim>\<open>str\<close> values, on ASCII text: \<^verbatim>\<open>lower()\<close>, \<^verbatim>\<open>in\<close>,
  \<^verbatim>\<open>startswith\<close> (the library's \<^const>\<open>prefix\<close>), \<^verbatim>\<open>split(sep)\<close>,
  \<^verbatim>\<open>strip(chars)\<close>, \<^verbatim>\<open>find\<close> and \<^verbatim>\<open>replace\<close>.
\<close>

definition ascii_lower :: "char \<Rightarrow> char" where
  "ascii_lower c =
     (case map_of (zip ''ABCDEFGHIJKLMNOPQRSTUVWXYZ'' ''abcdefghijklmnopqrstuvwxyz'') c of
        Some d \<Rightarrow> d
      | None \<Rightarrow> c)"

definition str_lower :: "string \<Rightarrow> string" where
  "str_lower s = map ascii_lower s"

text \<open>\<^verbatim>\<open>p in s\<close>: \<open>p\<close> occurs in \<open>s\<close> as a contiguous substring.\<close>

fun str_contains :: "string \<Rightarrow> string \<Rightarrow> bool" where
  "str_contains p [] = (p = [])"
| "str_contains p (c # cs) = (prefix p (c # cs) \<or> str_contains p cs)"

text \<open>\<^verbatim>\<open>s.split(sep)\<close> for a one-character separator: never the empty list.\<close>

fun str_split :: "char \<Rightarrow> string \<Rightarrow> string list" where
  "str_split sep [] = [[]]"
| "str_split sep (c # cs) =
     (if c = sep then [] # str_split sep cs
      else (case str_split sep cs of
              w # ws \<Rightarrow> (c # w) # ws
            | [] \<Rightarrow> [[c]]))"

text \<open>\<^verbatim>\<open>s.strip(c)\<close> for a single character \<open>c\<close>.\<close>

definition str_strip :: "char \<Rightarrow> string \<Rightarrow> string" where
  "str_strip c s = rev (dropWhile (\<lambda>x. x = c) (rev (dropWhile (\<lambda>x. x = c) s)))"

text \<open>
  \<^verbatim>\<open>s.replace(old, new)\<close> for a non-empty \<open>old\<close>: every non-overlapping occurrence,
  from the left. The skip counter is the number of characters of the current occurrence
  still to be dropped.
\<close>

fun replace_from :: "nat \<Rightarrow> string \<Rightarrow> string \<Rightarrow> string \<Rightarrow> string" where
  "replace_from k old new [] = []"
| "replace_from (Suc k) old new (c # cs) = replace_from k old new cs"
| "replace_from 0 old new (c # cs) =
     (if old \<noteq> [] \<and> prefix old (c # cs)
      then new @ replace_from (length old - 1) old new cs
      else c # replace_from 0 old new cs)"

definition str_replace :: "string \<Rightarrow> string \<Rightarrow> string \<Rightarrow> string" where
  "str_replace old new s = replace_from 0 old new s"

section \<open>config.py\<close>

definition FAKE_EMAIL_PATTERNS :: "string list" where
  "FAKE_EMAIL_PATTERNS =
     [''noreply'', ''no-reply'', ''donotreply'', ''users.noreply.github.com'',
      ''localhost'', ''example.com'', ''test.com'']"

definition DEFAULT_OUTPUT_FILE :: string where
  "DEFAULT_OUTPUT_FILE = ''github_contributors_results.xlsx''"

section \<open>utils.py\<close>

subsection \<open>\<^verbatim>\<open>is_valid_email\<close>\<close>

text \<open>
  The loop \<^verbatim>\<open>for pattern in FAKE_EMAIL_PATTERNS: if pattern in email_lower: return False\<close>,
  as the test whether some pattern of the list occurs in the string searched.
\<close>

fun any_pattern_in :: "string list \<Rightarrow> string \<Rightarrow> bool" where
  "any_pattern_in [] s = False"
| "any_pattern_in (p # ps) s = (if str_contains p s then True else any_pattern_in ps s)"

definition is_valid_email :: "string \<Rightarrow> bool" where
  "is_valid_email email =
     (if email = [] then False
      else if any_pattern_in FAKE_EMAIL_PATTERNS (str_lower email) then False
      else CHR ''@'' \<in> set email \<and> CHR ''.'' \<in> set (last (str_split CHR ''@'' email)))"

subsection \<open>\<^verbatim>\<open>clean_blog_url\<close>\<close>

text \<open>
  The argument is \<^verbatim>\<open>data.get('blog')\<close>: a string, or \<^verbatim>\<open>None\<close> when the field is absent
  or null. \<^verbatim>\<open>None\<close> and the empty string are falsy and are returned as they are.
\<close>

definition clean_blog_url :: "string option \<Rightarrow> string option" where
  "clean_blog_url blog_url =
     (case blog_url of
        None \<Rightarrow> None
      | Some s \<Rightarrow> if s \<noteq> [] \<and> \<not> prefix ''http'' s then Some (''https://'' @ s) else Some s)"

subsection \<open>\<^verbatim>\<open>urlparse\<close> and \<^verbatim>\<open>parse_repo_url\<close>\<close>

text \<open>
  \<^verbatim>\<open>urllib.parse.urlparse\<close>, for the three components \<^verbatim>\<open>parse_repo_url\<close> reads: the
  scheme (letters, digits, \<^verbatim>\<open>+-.\<close> before the first colon, starting with a letter,
  lower-cased), the network location (after \<^verbatim>\<open>//\<close>, up to the first of \<^verbatim>\<open>/?#\<close>) and
  the path (without fragment, query and the parameters of its last segment). A network
  location with an unbalanced square bracket, on which \<^verbatim>\<open>urlparse\<close> raises
  \<^verbatim>\<open>ValueError\<close>, is outside this model.
\<close>

definition is_alpha :: "char \<Rightarrow> bool" where
  "is_alpha c \<longleftrightarrow>
     c \<in> set ''abcdefghijklmnopqrstuvwxyzABCDEFGHIJKLMNOPQRSTUVWXYZ''"

definition is_digit :: "char \<Rightarrow> bool" where
  "is_digit c \<longleftrightarrow> c \<in> set ''0123456789''"

definition is_scheme_char :: "char \<Rightarrow> bool" where
  "is_scheme_char c \<longleftrightarrow> is_alpha c \<or> is_digit c \<or> c \<in> set ''+-.''"

definition uses_params :: "string list" where
  "uses_params = ['''', ''ftp'', ''hdl'', ''prospero'', ''http'', ''imap'', ''https'',
     ''shttp'', ''rtsp'', ''rtspu'', ''sip'', ''sips'', ''mms'', ''sftp'', ''tel'']"

record parsed_url =
  url_scheme :: string
  url_netloc :: string
  url_path :: string

definition split_scheme :: "string \<Rightarrow> string \<times> string" where
  "split_scheme url =
     (let pre = takeWhile (\<lambda>c. c \<noteq> CHR '':'') url
      in if CHR '':'' \<in> set url \<and> pre \<noteq> [] \<and> is_alpha (hd pre) \<and> list_all is_scheme_char pre
         then (str_lower pre, drop (length pre + 1) url)
         else ('''', url))"

definition split_netloc :: "string \<Rightarrow> string \<times> string" where
  "split_netloc url =
     (if prefix ''//'' url
      then (takeWhile (\<lambda>c. c \<notin> set ''/?#'') (drop 2 url),
            dropWhile (\<lambda>c. c \<notin> set ''/?#'') (drop 2 url))
      else ('''', url))"

definition split_params :: "string \<Rightarrow> string" where
  "split_params url =
     (let seg = rev (takeWhile (\<lambda>c. c \<noteq> CHR ''/'') (rev url))
      in take (length url - length seg) url @ takeWhile (\<lambda>c. c \<noteq> CHR '';'') seg)"

text \<open>
  What \<^verbatim>\<open>urlsplit\<close> does first: leading spaces and C0 control characters are stripped,
  and every tab, line feed and carriage return is removed.
\<close>

definition clean_url :: "string \<Rightarrow> string" where
  "clean_url url =
     filter (\<lambda>c. c \<notin> set [CHR 0x09, CHR 0x0A, CHR 0x0D])
       (dropWhile (\<lambda>c. (of_char c :: nat) \<le> 32) url)"

definition urlparse :: "string \<Rightarrow> parsed_url" where
  "urlparse url =
     (let (sch, rest0) = split_scheme (clean_url url);
          (loc, rest1) = split_netloc rest0;
          rest2 = takeWhile (\<lambda>c. c \<noteq> CHR ''#'') rest1;
          rest3 = takeWhile (\<lambda>c. c \<noteq> CHR ''?'') rest2;
          pth = (if sch \<in> set uses_params \<and> CHR '';'' \<in> set rest3
                 then split_params rest3 else rest3)
      in \<lparr>url_scheme = sch, url_netloc = loc, url_path = pth\<rparr>)"

text \<open>The pair \<^verbatim>\<open>(owner, repo)\<close>, or \<^verbatim>\<open>(None, None)\<close>.\<close>

definition parse_repo_url :: "string \<Rightarrow> string option \<times> string option" where
  "parse_repo_url repo_url =
     (let parsed = urlparse repo_url
      in if url_scheme parsed \<notin> {''http'', ''https''} then (None, None)
         else if url_netloc parsed \<noteq> ''github.com'' then (None, None)
         else (let parts = str_split CHR ''/'' (str_strip CHR ''/'' (url_path parsed))
               in if length parts \<noteq> 2 then (None, None)
                  else (Some (parts ! 0), Some (parts ! 1))))"

section \<open>data\_handler.py: links of a README\<close>

text \<open>
  \<^verbatim>\<open>re.findall(r'https?://github\.com/[\w\.-]+/[\w\.-]+', readme)\<close>. Both character
  classes are greedy and are followed by a character outside the class (or by nothing), so
  a match at a position is determined: the longest run of class characters each time.
  \<^verbatim>\<open>findall\<close> returns the non-overlapping matches from the left; the counter is the
  number of characters of the last match still to be passed. On ASCII text \<^verbatim>\<open>\w\<close> is a
  letter, a digit or the underscore.
\<close>

definition is_repo_char :: "char \<Rightarrow> bool" where
  "is_repo_char c \<longleftrightarrow> is_alpha c \<or> is_digit c \<or> c \<in> set ''_.-''"

definition drop_prefix :: "string \<Rightarrow> string \<Rightarrow> string option" where
  "drop_prefix p s = (if prefix p s then Some (drop (length p) s) else None)"

definition match_repo_url :: "string \<Rightarrow> string option" where
  "match_repo_url s =
     (case drop_prefix ''http'' s of
        None \<Rightarrow> None
      | Some s1 \<Rightarrow>
          (let opt_s = (if prefix ''s'' s1 then ''s'' else '''');
               s2 = drop (length opt_s) s1
           in case drop_prefix ''://github.com/'' s2 of
                None \<Rightarrow> None
              | Some s3 \<Rightarrow>
                  (let owner = takeWhile is_repo_char s3;
                       s4 = dropWhile is_repo_char s3
                   in if owner = [] \<or> \<not> prefix ''/'' s4 then None
                      else (let name = takeWhile is_repo_char (drop 1 s4)
                            in if name = [] then None
                               else Some (''http'' @ opt_s @ ''://github.com/'' @ owner
                                            @ ''/'' @ name)))))"

fun findall_from :: "nat \<Rightarrow> string \<Rightarrow> string list" where
  "findall_from k [] = []"
| "findall_from (Suc k) (c # cs) = findall_from k cs"
| "findall_from 0 (c # cs) =
     (case match_repo_url (c # cs) of
        Some m \<Rightarrow> m # findall_from (length m - 1) cs
      | None \<Rightarrow> findall_from 0 cs)"

definition findall_repo_urls :: "string \<Rightarrow> string list" where
  "findall_repo_urls readme = findall_from 0 readme"

text \<open>An f-string field: \<^verbatim>\<open>None\<close> is formatted as the text \<^verbatim>\<open>None\<close>.\<close>

definition fmt :: "string option \<Rightarrow> string" where
  "fmt v = (case v of None \<Rightarrow> ''None'' | Some s \<Rightarrow> s)"

definition is_external :: "string \<Rightarrow> string \<Rightarrow> bool" where
  "is_external current_repo url =
     (let (sub_rebo_owner, sub_rebo_name) = parse_repo_url url;
          target_repo = fmt sub_rebo_owner @ ''/'' @ fmt sub_rebo_name
      in target_repo \<noteq> [] \<and> str_lower target_repo \<noteq> current_repo)"

definition get_list_of_repo_urls_from_readme :: "string \<Rightarrow> string \<Rightarrow> string \<Rightarrow> string list" where
  "get_list_of_repo_urls_from_readme readme owner repo =
     (let urls = findall_repo_urls readme;
          current_repo = owner @ ''/'' @ repo
      in filter (is_external current_repo) urls)"

section \<open>The remote services\<close>

text \<open>
  Every remote read is a request whose response the program does not control. A request
  either raises (a transport error of \<^verbatim>\<open>requests\<close>, or a body that is not the expected
  JSON), or answers with a status other than 200, or answers 200 with a body. The bodies
  are typed by what the source reads from them.
\<close>

datatype 'a response = Raises | Not_ok | Ok_200 'a

datatype exn = Request_exception

text \<open>An entry of the contributors listing of a repository.\<close>

record candidate =
  login :: string
  contributions :: int
  html_url :: string

text \<open>
  An event of the public feed: its \<^verbatim>\<open>type\<close>, its \<^verbatim>\<open>created_at\<close> as seconds since the
  epoch, and \<^verbatim>\<open>payload.commits\<close> (the empty list when the payload has none).
\<close>

record event =
  ev_type :: string
  ev_created_at :: int
  ev_commits :: "string list"

text \<open>
  The answer of the GraphQL endpoint to the contributions query: an \<^verbatim>\<open>errors\<close> payload,
  no \<^verbatim>\<open>user\<close>, or the \<^verbatim>\<open>totalContributions\<close> of the calendar.
\<close>

datatype graphql = Gql_errors | Gql_no_user | Gql_total int

text \<open>The fields of \<^verbatim>\<open>/users/{username}\<close> the profile keeps; \<open>None\<close> is JSON null.\<close>

record user_json =
  u_email :: "string option"
  u_blog :: "string option"
  u_location :: "string option"
  u_name :: "string option"
  u_bio :: "string option"
  u_company :: "string option"
  u_twitter_username :: "string option"
  u_public_repos :: int
  u_followers :: int
  u_following :: int
  u_created_at :: "string option"
  u_updated_at :: "string option"

text \<open>
  The query parameters of a listing of a user's repositories
  (\<^verbatim>\<open>/users/{username}/repos\<close>): \<^verbatim>\<open>sort\<close>, \<^verbatim>\<open>direction\<close>, \<^verbatim>\<open>per_page\<close> and \<^verbatim>\<open>type\<close>.
\<close>

record repo_query =
  q_sort :: string
  q_direction :: string
  q_per_page :: nat
  q_type :: string

text \<open>
  The environment of a run: whether a token is configured, and the response to each
  request. \<open>user_repos\<close> is the listing of a user's repositories for given query
  parameters; \<open>repo_contributors\<close> is the result of \<^verbatim>\<open>get_repo_contributors\<close> (the pages it
  aggregated, or the exception of a request); \<open>pinned_repos\<close> is the result of the profile
  scraper \<^verbatim>\<open>get_pinned_repos\<close>, which returns the names it found or raises
  \<^verbatim>\<open>RequestException\<close>. Repositories are their \<^verbatim>\<open>full_name\<close>, commits their \<^verbatim>\<open>sha\<close>.
\<close>

record env =
  has_token :: bool
  repo_contributors :: "string \<Rightarrow> string \<Rightarrow> exn + candidate list"
  graphql_contributions :: "string \<Rightarrow> graphql response"
  events_page :: "string \<Rightarrow> nat \<Rightarrow> event list response"
  user_api :: "string \<Rightarrow> user_json response"
  user_repos :: "string \<Rightarrow> repo_query \<Rightarrow> string list response"
  commits_by_author :: "string \<Rightarrow> string \<Rightarrow> string list response"
  commit_author_email :: "string \<Rightarrow> string \<Rightarrow> string option response"
  pinned_repos :: "string \<Rightarrow> exn + string list"

text \<open>The requests a function sends, in the order it sends them.\<close>

datatype call =
    List_contributors string string
  | Graphql_contributions string
  | Events_page string nat
  | User_profile string
  | List_repos string repo_query
  | List_commits string string
  | Commit_detail string string
  | Pinned_profile string

section \<open>github\_api.py\<close>

subsection \<open>\<^verbatim>\<open>get_commits_from_events\<close>\<close>

text \<open>
  The inner loop over the events of one page: it either runs to the end of the page
  (\<open>Continue\<close>, with the running total) or executes \<^verbatim>\<open>return total_commits\<close> at a push
  event older than the cutoff (\<open>Return\<close>). Only push events have their date read.
\<close>

datatype scan = Continue nat | Return nat

fun scan_events :: "int \<Rightarrow> nat \<Rightarrow> event list \<Rightarrow> scan" where
  "scan_events cutoff_date total_commits [] = Continue total_commits"
| "scan_events cutoff_date total_commits (e # es) =
     (if ev_type e = ''PushEvent''
      then (if ev_created_at e \<ge> cutoff_date
            then scan_events cutoff_date (total_commits + length (ev_commits e)) es
            else Return total_commits)
      else scan_events cutoff_date total_commits es)"

text \<open>The outer loop \<^verbatim>\<open>for page in range(1, 4)\<close>, over the pages still to be requested.\<close>

fun events_loop ::
  "env \<Rightarrow> int \<Rightarrow> string \<Rightarrow> nat list \<Rightarrow> nat \<Rightarrow> call list \<times> (exn + nat)" where
  "events_loop E cutoff_date username [] total_commits = ([], Inr total_commits)"
| "events_loop E cutoff_date username (page # pages) total_commits =
     (case events_page E username page of
        Raises \<Rightarrow> ([Events_page username page], Inl Request_exception)
      | Not_ok \<Rightarrow> ([Events_page username page], Inr total_commits)
      | Ok_200 events \<Rightarrow>
          if events = [] then ([Events_page username page], Inr total_commits)
          else (case scan_events cutoff_date total_commits events of
                  Return t \<Rightarrow> ([Events_page username page], Inr t)
                | Continue t \<Rightarrow>
                    (let (calls, r) = events_loop E cutoff_date username pages t
                     in (Events_page username page # calls, r))))"

definition cutoff :: "int \<Rightarrow> int" where
  "cutoff now = now - 365 * 86400"

definition get_commits_from_events :: "env \<Rightarrow> int \<Rightarrow> string \<Rightarrow> call list \<times> (exn + nat)" where
  "get_commits_from_events E now username = events_loop E (cutoff now) username [1, 2, 3] 0"

subsection \<open>\<^verbatim>\<open>get_user_contributions_last_year\<close>\<close>

text \<open>
  The fallback called inside the \<^verbatim>\<open>try\<close> block: when it raises, the handler calls it
  once more, and that call's exception leaves the function.
\<close>

definition fallback_in_try :: "env \<Rightarrow> int \<Rightarrow> string \<Rightarrow> call list \<times> (exn + nat)" where
  "fallback_in_try E now username =
     (let (c1, r1) = get_commits_from_events E now username
      in case r1 of
           Inr n \<Rightarrow> (c1, Inr n)
         | Inl x \<Rightarrow> (let (c2, r2) = get_commits_from_events E now username in (c1 @ c2, r2)))"

definition as_int :: "call list \<times> (exn + nat) \<Rightarrow> call list \<times> (exn + int)" where
  "as_int cr = (fst cr, map_sum id int (snd cr))"

definition get_user_contributions_last_year ::
  "env \<Rightarrow> int \<Rightarrow> string \<Rightarrow> call list \<times> (exn + int)" where
  "get_user_contributions_last_year E now username =
     (if \<not> has_token E then as_int (get_commits_from_events E now username)
      else (case graphql_contributions E username of
              Raises \<Rightarrow>
                (let (c, r) = as_int (get_commits_from_events E now username)
                 in (Graphql_contributions username # c, r))
            | Not_ok \<Rightarrow>
                (let (c, r) = as_int (fallback_in_try E now username)
                 in (Graphql_contributions username # c, r))
            | Ok_200 Gql_errors \<Rightarrow>
                (let (c, r) = as_int (fallback_in_try E now username)
                 in (Graphql_contributions username # c, r))
            | Ok_200 Gql_no_user \<Rightarrow> ([Graphql_contributions username], Inr 0)
            | Ok_200 (Gql_total total_contributions) \<Rightarrow>
                ([Graphql_contributions username], Inr total_contributions)))"

subsection \<open>\<^verbatim>\<open>get_user_profile\<close>\<close>

text \<open>
  The profile is a dictionary: \<open>None\<close> is the empty dictionary \<^verbatim>\<open>{}\<close> returned on a
  status other than 200, \<open>Some\<close> the dictionary of the twelve fields.
\<close>

definition get_user_profile :: "env \<Rightarrow> string \<Rightarrow> call list \<times> (exn + user_json option)" where
  "get_user_profile E username =
     ([User_profile username],
      case user_api E username of
        Raises \<Rightarrow> Inl Request_exception
      | Not_ok \<Rightarrow> Inr None
      | Ok_200 data \<Rightarrow> Inr (Some (data\<lparr>u_blog := clean_blog_url (u_blog data)\<rparr>)))"

subsection \<open>Commit emails\<close>

text \<open>
  \<^verbatim>\<open>_get_email_from_commit_api\<close>: the author email of one commit, \<^verbatim>\<open>None\<close> on any
  failure (the function catches every exception).
\<close>

definition get_email_from_commit_api ::
  "env \<Rightarrow> string \<Rightarrow> string \<Rightarrow> call list \<times> string option" where
  "get_email_from_commit_api E repo_name commit_sha =
     ([Commit_detail repo_name commit_sha],
      case commit_author_email E repo_name commit_sha of
        Ok_200 email \<Rightarrow> email
      | _ \<Rightarrow> None)"

text \<open>A Python value used as a condition: \<^verbatim>\<open>None\<close> and the empty string are falsy.\<close>

definition truthy :: "string option \<Rightarrow> bool" where
  "truthy v \<longleftrightarrow> (case v of None \<Rightarrow> False | Some s \<Rightarrow> s \<noteq> [])"

text \<open>The loop \<^verbatim>\<open>for commit in reversed(commits)\<close>, over the commits still to be read.\<close>

fun first_valid_email :: "env \<Rightarrow> string \<Rightarrow> string list \<Rightarrow> call list \<times> string option" where
  "first_valid_email E repo_name [] = ([], None)"
| "first_valid_email E repo_name (commit_sha # commits) =
     (let (c, email) = get_email_from_commit_api E repo_name commit_sha
      in if truthy email \<and> is_valid_email (the email) then (c, email)
         else (let (cs, r) = first_valid_email E repo_name commits in (c @ cs, r)))"

text \<open>\<^verbatim>\<open>_extract_email_from_repo_commits\<close>: up to 10 commits of the author, oldest first.\<close>

definition extract_email_from_repo_commits ::
  "env \<Rightarrow> string \<Rightarrow> string \<Rightarrow> call list \<times> string option" where
  "extract_email_from_repo_commits E username repo_name =
     (case commits_by_author E username repo_name of
        Ok_200 commits \<Rightarrow>
          if commits = [] then ([List_commits username repo_name], None)
          else (let (cs, r) = first_valid_email E repo_name (rev commits)
                in (List_commits username repo_name # cs, r))
      | _ \<Rightarrow> ([List_commits username repo_name], None))"

text \<open>
  The parameters of the two listings \<^verbatim>\<open>get_commit_email_from_repo\<close> requests: \<^verbatim>\<open>params\<close>
  (the comment beside its \<^verbatim>\<open>'type': 'all'\<close> reads "Only repos owned by the user") and
  \<^verbatim>\<open>recent_params\<close>.
\<close>

definition repos_params :: repo_query where
  "repos_params =
     \<lparr>q_sort = ''created'', q_direction = ''asc'', q_per_page = 30, q_type = ''all''\<rparr>"

definition recent_params :: repo_query where
  "recent_params =
     \<lparr>q_sort = ''updated'', q_direction = ''desc'', q_per_page = 15, q_type = ''owner''\<rparr>"

text \<open>
  The first loop of \<^verbatim>\<open>get_commit_email_from_repo\<close>, \<^verbatim>\<open>for i, repo in enumerate(repos)\<close>:
  it returns the email found, or ends (at the end of the list, or by \<^verbatim>\<open>break\<close> when
  \<^verbatim>\<open>i >= 9\<close>) with \<open>None\<close>.
\<close>

fun scan_created :: "env \<Rightarrow> string \<Rightarrow> nat \<Rightarrow> string list \<Rightarrow> call list \<times> string option" where
  "scan_created E username i [] = ([], None)"
| "scan_created E username i (repo_name # repos) =
     (let (c, email) = extract_email_from_repo_commits E username repo_name
      in if truthy email then (c, email)
         else if i \<ge> 9 then (c, None)
         else (let (cs, r) = scan_created E username (i + 1) repos in (c @ cs, r)))"

text \<open>The second loop, over \<^verbatim>\<open>recent_repos[:5]\<close>.\<close>

fun scan_recent :: "env \<Rightarrow> string \<Rightarrow> string list \<Rightarrow> call list \<times> string option" where
  "scan_recent E username [] = ([], None)"
| "scan_recent E username (repo_name # repos) =
     (let (c, email) = extract_email_from_repo_commits E username repo_name
      in if truthy email then (c, email)
         else (let (cs, r) = scan_recent E username repos in (c @ cs, r)))"

definition get_commit_email_from_repo :: "env \<Rightarrow> string \<Rightarrow> call list \<times> string option" where
  "get_commit_email_from_repo E username =
     (case user_repos E username repos_params of
        Ok_200 repos \<Rightarrow>
          if repos \<noteq> [] then
            (let (c1, e1) = scan_created E username 0 repos
             in if truthy e1 then (List_repos username repos_params # c1, e1)
                else (case user_repos E username recent_params of
                        Ok_200 recent_repos \<Rightarrow>
                          (let (c2, e2) = scan_recent E username (take 5 recent_repos)
                           in (List_repos username repos_params # c1
                                 @ List_repos username recent_params # c2, e2))
                      | _ \<Rightarrow>
                          (List_repos username repos_params # c1 @ [List_repos username recent_params],
                           None)))
          else ([List_repos username repos_params], None)
      | _ \<Rightarrow> ([List_repos username repos_params], None))"

section \<open>crawler.py\<close>

text \<open>
  The loop over the pinned repositories: \<open>commit_email\<close> holds the result of the last
  scan, and the loop is left at the first truthy one.
\<close>

fun scan_pinned ::
  "env \<Rightarrow> string \<Rightarrow> string list \<Rightarrow> string option \<Rightarrow> call list \<times> string option" where
  "scan_pinned E username [] commit_email = ([], commit_email)"
| "scan_pinned E username (pinned_repo # pinned) commit_email =
     (let (c, email) = extract_email_from_repo_commits E username pinned_repo
      in if truthy email then (c, email)
         else (let (cs, r) = scan_pinned E username pinned email in (c @ cs, r)))"

text \<open>
  Email discovery for one qualified contributor (the block of
  \<^verbatim>\<open>filter_contributors_for_repo\<close> that sets \<open>commit_email\<close>): the user's own
  repositories, then the pinned ones when that gave \<^verbatim>\<open>None\<close>. The scraper's exception is
  not caught here.
\<close>

definition discover_commit_email ::
  "env \<Rightarrow> string \<Rightarrow> call list \<times> (exn + string option)" where
  "discover_commit_email E username =
     (let (c, commit_email) = get_commit_email_from_repo E username
      in if commit_email = None then
           (case pinned_repos E username of
              Inl x \<Rightarrow> (c @ [Pinned_profile username], Inl x)
            | Inr pinned \<Rightarrow>
                (let (cs, r) = scan_pinned E username pinned commit_email
                 in (c @ Pinned_profile username # cs, Inr r)))
         else (c, Inr commit_email))"

text \<open>
  A row of the result: the dictionary \<^verbatim>\<open>filter_contributors_for_repo\<close> builds, which is
  also a row of the \<^verbatim>\<open>All Contributors\<close> sheet. \<open>None\<close> is Python's \<^verbatim>\<open>None\<close>, or an
  empty cell (NaN) of a sheet read back.
\<close>

record row =
  repo_url :: "string option"
  repo_name :: "string option"
  username :: "string option"
  repo_contributions :: "int option"
  yearly_contributions :: "int option"
  profile_url :: "string option"
  name :: "string option"
  email :: "string option"
  commit_email :: "string option"
  website :: "string option"
  location :: "string option"
  company :: "string option"
  twitter :: "string option"
  bio :: "string option"
  public_repos :: "int option"
  followers :: "int option"
  following :: "int option"
  account_created :: "string option"

text \<open>\<^verbatim>\<open>profile.get(key, default)\<close> on the profile dictionary.\<close>

definition profile_get :: "(user_json \<Rightarrow> 'a) \<Rightarrow> 'a \<Rightarrow> user_json option \<Rightarrow> 'a" where
  "profile_get field dflt profile =
     (case profile of None \<Rightarrow> dflt | Some p \<Rightarrow> field p)"

definition make_row ::
  "string \<Rightarrow> string \<Rightarrow> candidate \<Rightarrow> int \<Rightarrow> user_json option \<Rightarrow> string option \<Rightarrow> row" where
  "make_row url full_name contributor yearly profile found_email =
     \<lparr>repo_url = Some url,
      repo_name = Some full_name,
      username = Some (login contributor),
      repo_contributions = Some (contributions contributor),
      yearly_contributions = Some yearly,
      profile_url = Some (html_url contributor),
      name = profile_get u_name (Some '''') profile,
      email = profile_get u_email (Some '''') profile,
      commit_email = (if truthy found_email then found_email else Some ''''),
      website = profile_get u_blog (Some '''') profile,
      location = profile_get u_location (Some '''') profile,
      company = profile_get u_company (Some '''') profile,
      twitter = profile_get u_twitter_username (Some '''') profile,
      bio = profile_get u_bio (Some '''') profile,
      public_repos = profile_get (\<lambda>p. Some (u_public_repos p)) (Some 0) profile,
      followers = profile_get (\<lambda>p. Some (u_followers p)) (Some 0) profile,
      following = profile_get (\<lambda>p. Some (u_following p)) (Some 0) profile,
      account_created = profile_get u_created_at (Some '''') profile\<rparr>"

text \<open>
  The body of \<^verbatim>\<open>for contributor in high_contributors\<close>: the requests it sends, and the
  row appended (\<open>Some\<close>), nothing appended (\<open>None\<close>), or the exception that leaves the loop.
\<close>

definition qualify ::
  "env \<Rightarrow> int \<Rightarrow> string \<Rightarrow> string \<Rightarrow> int \<Rightarrow> candidate \<Rightarrow> call list \<times> (exn + row option)" where
  "qualify E now url full_name min_yearly_contributions contributor =
     (let uname = login contributor;
          (c1, y) = get_user_contributions_last_year E now uname
      in case y of
           Inl x \<Rightarrow> (c1, Inl x)
         | Inr yearly \<Rightarrow>
             if yearly \<ge> min_yearly_contributions then
               (let (c2, p) = get_user_profile E uname
                in case p of
                     Inl x \<Rightarrow> (c1 @ c2, Inl x)
                   | Inr profile \<Rightarrow>
                       (let (c3, m) = discover_commit_email E uname
                        in case m of
                             Inl x \<Rightarrow> (c1 @ c2 @ c3, Inl x)
                           | Inr found \<Rightarrow>
                               (c1 @ c2 @ c3,
                                Inr (Some (make_row url full_name contributor yearly
                                             profile found)))))
             else (c1, Inr None))"

text \<open>
  The log of a repository scan: each request with the contributor it was sent for
  (\<open>None\<close> for the listing of the repository itself).
\<close>

type_synonym log = "(string option \<times> call) list"

definition on_behalf :: "string \<Rightarrow> call list \<Rightarrow> log" where
  "on_behalf uname calls = map (\<lambda>c. (Some uname, c)) calls"

fun qualify_all ::
  "env \<Rightarrow> int \<Rightarrow> string \<Rightarrow> string \<Rightarrow> int \<Rightarrow> candidate list \<Rightarrow> row list
     \<Rightarrow> log \<times> (exn + row list)" where
  "qualify_all E now url full_name min_yearly [] qualified_contributors =
     ([], Inr qualified_contributors)"
| "qualify_all E now url full_name min_yearly (contributor # rest) qualified_contributors =
     (case qualify E now url full_name min_yearly contributor of
        (c, Inl x) \<Rightarrow> (on_behalf (login contributor) c, Inl x)
      | (c, Inr None) \<Rightarrow>
          (let (l, r) = qualify_all E now url full_name min_yearly rest qualified_contributors
           in (on_behalf (login contributor) c @ l, r))
      | (c, Inr (Some new_row)) \<Rightarrow>
          (let (l, r) = qualify_all E now url full_name min_yearly rest
                          (qualified_contributors @ [new_row])
           in (on_behalf (login contributor) c @ l, r)))"

text \<open>
  \<^verbatim>\<open>filter_contributors_for_repo\<close>: an exception anywhere after the URL is parsed is
  caught, and the result is then the empty list.
\<close>

definition filter_contributors_for_repo ::
  "env \<Rightarrow> int \<Rightarrow> string \<Rightarrow> int \<Rightarrow> int \<Rightarrow> log \<times> row list" where
  "filter_contributors_for_repo E now url min_repo_contributions min_yearly_contributions =
     (case parse_repo_url url of
        (Some owner, Some repo) \<Rightarrow>
          if owner = [] \<or> repo = [] then ([], [])
          else (case repo_contributors E owner repo of
                  Inl x \<Rightarrow> ([(None, List_contributors owner repo)], [])
                | Inr contributors \<Rightarrow>
                    (let high_contributors =
                           filter (\<lambda>c. contributions c \<ge> min_repo_contributions) contributors;
                         (l, r) = qualify_all E now url (owner @ ''/'' @ repo)
                                    min_yearly_contributions high_contributors []
                     in ((None, List_contributors owner repo) # l,
                         case r of Inl x \<Rightarrow> [] | Inr qualified \<Rightarrow> qualified)))
      | _ \<Rightarrow> ([], []))"

section \<open>data\_handler.py: the result store\<close>

text \<open>
  The sheets \<^verbatim>\<open>save_to_excel\<close> writes, as far as they are made of rows and counts:
  \<^verbatim>\<open>All Contributors\<close>, \<^verbatim>\<open>Contact Information\<close> (its rows, before the projection to
  the contact columns), \<^verbatim>\<open>Progress Log\<close> (without its time stamp) and, when usernames
  were rejected, \<^verbatim>\<open>Duplicates Filtered\<close> (a Python set, so without an order). The
  \<^verbatim>\<open>Repository Summary\<close> sheet holds rounded floating-point means and is left out.
\<close>

record progress =
  total_contributors :: nat
  total_repositories :: nat
  new_contributors_added :: nat
  contributors_with_email :: nat
  duplicates_removed_internal :: nat
  duplicates_removed_external :: nat
  excel_files_checked :: nat
  directory_scanned :: string

record workbook =
  all_contributors :: "row list"
  contact_information :: "row list"
  progress_log :: progress
  duplicates_filtered :: "string set option"

text \<open>
  A file is a workbook this program can read back (it has the sheet
  \<^verbatim>\<open>All Contributors\<close> with a \<open>username\<close> column), a delimited file of rows, or
  anything else, on which \<^verbatim>\<open>pd.read_excel\<close> or the column access raises.
\<close>

datatype stored_file = Workbook workbook | Csv_file "row list" | Other_file

text \<open>
  The file system: the files by path, the listing of each directory that exists, and
  \<^verbatim>\<open>os.path.abspath\<close>. A \<open>check_directory\<close> that exists is a directory. The functions
  of this section take the sheet of a workbook as the frame \<^verbatim>\<open>pd.read_excel\<close> delivers
  for it, and store at the target the frame the run writes; what the reader makes of a
  sheet that was written is \<open>read_excel\<close> below, and the run from the files as they are
  on disk is \<open>save_to_excel_on_disk\<close>.
\<close>

record store =
  files :: "string \<rightharpoonup> stored_file"
  listdir :: "string \<rightharpoonup> string list"
  abspath :: "string \<Rightarrow> string"

text \<open>
  What the writes of a run do: the \<^verbatim>\<open>ExcelWriter\<close> block completes; or it raises,
  leaving something (or nothing) at the target path, and \<^verbatim>\<open>to_csv\<close> writes the fallback
  file; or it raises and the unguarded \<^verbatim>\<open>to_csv\<close> raises as well.
\<close>

datatype write_outcome =
    Excel_written
  | Excel_fails "stored_file option"
  | Both_fail "stored_file option"

text \<open>
  \<^verbatim>\<open>df.drop_duplicates(subset=['username'], keep='first')\<close>: a row is kept when its
  username was not seen before; missing usernames count as equal to each other.
\<close>

fun dedup_seen :: "string option set \<Rightarrow> row list \<Rightarrow> row list" where
  "dedup_seen seen [] = []"
| "dedup_seen seen (r # rs) =
     (if username r \<in> seen then dedup_seen seen rs
      else r # dedup_seen (insert (username r) seen) rs)"

definition drop_duplicates :: "row list \<Rightarrow> row list" where
  "drop_duplicates df = dedup_seen {} df"

text \<open>\<^verbatim>\<open>set(df['username'].dropna().astype(str))\<close>.\<close>

definition usernames_of :: "row list \<Rightarrow> string set" where
  "usernames_of df = set (List.map_filter username df)"

text \<open>\<^verbatim>\<open>df['username'].isin(existing_usernames)\<close>, for one row.\<close>

definition isin :: "row \<Rightarrow> string set \<Rightarrow> bool" where
  "isin r existing_usernames \<longleftrightarrow>
     (case username r of None \<Rightarrow> False | Some u \<Rightarrow> u \<in> existing_usernames)"

definition path_join :: "string \<Rightarrow> string \<Rightarrow> string" where
  "path_join d f = (if d = [] then f else if last d = CHR ''/'' then d @ f else d @ ''/'' @ f)"

definition is_excel_name :: "string \<Rightarrow> bool" where
  "is_excel_name f \<longleftrightarrow> suffix ''.xlsx'' f \<or> suffix ''.xls'' f"

text \<open>Step 2: the other workbooks of the directory, and the usernames they hold.\<close>

definition excel_files :: "store \<Rightarrow> string \<Rightarrow> string \<Rightarrow> string list" where
  "excel_files st filename check_directory =
     filter (\<lambda>full_path. abspath st full_path \<noteq> abspath st filename)
       (map (path_join check_directory)
          (filter is_excel_name (case listdir st check_directory of None \<Rightarrow> [] | Some fs \<Rightarrow> fs)))"

fun scan_workbooks :: "store \<Rightarrow> string list \<Rightarrow> string set \<times> nat \<Rightarrow> string set \<times> nat" where
  "scan_workbooks st [] acc = acc"
| "scan_workbooks st (workbook_path # paths) (existing_usernames, other_files_processed) =
     (case files st workbook_path of
        Some (Workbook other) \<Rightarrow>
          scan_workbooks st paths
            (existing_usernames \<union> usernames_of (all_contributors other),
             other_files_processed + 1)
      | _ \<Rightarrow> scan_workbooks st paths (existing_usernames, other_files_processed))"

definition scan_directory :: "store \<Rightarrow> string \<Rightarrow> string option \<Rightarrow> string set \<times> nat" where
  "scan_directory st filename check_directory =
     (case check_directory of
        None \<Rightarrow> ({}, 0)
      | Some d \<Rightarrow>
          if d = [] \<or> listdir st d = None then ({}, 0)
          else scan_workbooks st (excel_files st filename d) ({}, 0))"

text \<open>
  Step 3: the rows of the target file; the empty frame when the file does not exist or
  cannot be read.
\<close>

definition load_existing :: "store \<Rightarrow> string \<Rightarrow> row list" where
  "load_existing st filename =
     (case files st filename of Some (Workbook wb) \<Rightarrow> all_contributors wb | _ \<Rightarrow> [])"

text \<open>Steps 1 to 5 and the final deduplication: everything before the files are written.\<close>

record merged =
  combined_df :: "row list"
  new_df :: "row list"
  duplicates_found :: "string set"
  removed_internal :: nat
  removed_external :: nat
  other_files_processed :: nat

definition merge_batch :: "store \<Rightarrow> row list \<Rightarrow> string \<Rightarrow> string option \<Rightarrow> merged" where
  "merge_batch st contributors filename check_directory =
     (let new1 = drop_duplicates contributors;
          (dir_usernames, processed) = scan_directory st filename check_directory;
          existing_df = load_existing st filename;
          existing_usernames = dir_usernames \<union> usernames_of existing_df;
          dups = usernames_of new1 \<inter> existing_usernames;
          new2 = (if dups \<noteq> {} then filter (\<lambda>r. \<not> isin r existing_usernames) new1 else new1);
          combined = (if existing_df \<noteq> [] then existing_df @ new2 else new2)
      in \<lparr>combined_df = drop_duplicates combined,
          new_df = new2,
          duplicates_found = dups,
          removed_internal = length contributors - length new1,
          removed_external = length new1 - length new2,
          other_files_processed = processed\<rparr>)"

text \<open>Step 6: the sheets.\<close>

definition filled :: "string option \<Rightarrow> bool" where
  "filled v \<longleftrightarrow> v \<noteq> None \<and> v \<noteq> Some ''''"

definition has_contact :: "row \<Rightarrow> bool" where
  "has_contact r \<longleftrightarrow> filled (email r) \<or> filled (commit_email r) \<or> filled (website r)"

definition build_workbook :: "merged \<Rightarrow> string option \<Rightarrow> workbook" where
  "build_workbook m check_directory =
     (let contact_df = filter has_contact (combined_df m)
      in \<lparr>all_contributors = combined_df m,
          contact_information = contact_df,
          progress_log =
            \<lparr>total_contributors = length (combined_df m),
             total_repositories = length (remdups (List.map_filter repo_name (combined_df m))),
             new_contributors_added = length (new_df m),
             contributors_with_email = length contact_df,
             duplicates_removed_internal = removed_internal m,
             duplicates_removed_external = removed_external m,
             excel_files_checked = other_files_processed m,
             directory_scanned =
               (case check_directory of None \<Rightarrow> ''None''
                | Some d \<Rightarrow> if d = [] then ''None'' else d)\<rparr>,
          duplicates_filtered =
            (if duplicates_found m \<noteq> {} then Some (duplicates_found m) else None)\<rparr>)"

text \<open>The name of the fallback file.\<close>

definition csv_filename :: "string \<Rightarrow> string" where
  "csv_filename filename = str_replace ''.xlsx'' ''_backup.csv'' filename"

definition save_to_excel ::
  "store \<Rightarrow> write_outcome \<Rightarrow> row list \<Rightarrow> string \<Rightarrow> string option \<Rightarrow> store" where
  "save_to_excel st io contributors filename check_directory =
     (if contributors = [] then st
      else (let m = merge_batch st contributors filename check_directory
            in case io of
                 Excel_written \<Rightarrow>
                   st\<lparr>files := (files st)(filename \<mapsto> Workbook (build_workbook m check_directory))\<rparr>
               | Excel_fails leftover \<Rightarrow>
                   st\<lparr>files := ((files st)(filename := leftover))
                                  (csv_filename filename \<mapsto> Csv_file (combined_df m))\<rparr>
               | Both_fail leftover \<Rightarrow> st\<lparr>files := (files st)(filename := leftover)\<rparr>))"

text \<open>An exception leaves \<^verbatim>\<open>save_to_excel\<close> when both writes of a non-empty batch fail.\<close>

definition save_raises :: "write_outcome \<Rightarrow> row list \<Rightarrow> bool" where
  "save_raises io contributors \<longleftrightarrow>
     (case io of Both_fail leftover \<Rightarrow> contributors \<noteq> [] | _ \<Rightarrow> False)"

text \<open>
  Successive runs against one target file and one directory, each with its batch and
  with what happens to its write.
\<close>

fun save_runs ::
  "store \<Rightarrow> string \<Rightarrow> string option \<Rightarrow> (write_outcome \<times> row list) list \<Rightarrow> store" where
  "save_runs st filename check_directory [] = st"
| "save_runs st filename check_directory ((io, contributors) # runs) =
     save_runs (save_to_excel st io contributors filename check_directory)
       filename check_directory runs"

definition sheet_rows :: "store \<Rightarrow> string \<Rightarrow> row list option" where
  "sheet_rows st filename =
     (case files st filename of Some (Workbook wb) \<Rightarrow> Some (all_contributors wb) | _ \<Rightarrow> None)"

section \<open>Reading a workbook back\<close>

text \<open>
  \<^verbatim>\<open>pd.read_excel(filename, sheet_name='All Contributors')\<close>, with the defaults the
  source leaves in place: a text cell that is one of the reader's missing-value markers
  is read as a missing value, as an empty cell is, and the empty string is written as an
  empty cell. The reader also turns a column of numeric-looking text into numbers; that
  conversion is not part of this model, which is faithful on sheets without such text.
\<close>

definition NA_VALUES :: "string list" where
  "NA_VALUES =
     ['''', ''#N/A'', ''#N/A N/A'', ''#NA'', ''-1.#IND'', ''-1.#QNAN'', ''-NaN'', ''-nan'',
      ''1.#IND'', ''1.#QNAN'', ''<NA>'', ''N/A'', ''NA'', ''NULL'', ''NaN'', ''None'',
      ''n/a'', ''nan'', ''null'']"

definition read_text :: "string option \<Rightarrow> string option" where
  "read_text cell =
     (case cell of
        None \<Rightarrow> None
      | Some s \<Rightarrow> if s \<in> set NA_VALUES then None else Some s)"

definition read_row :: "row \<Rightarrow> row" where
  "read_row r =
     r\<lparr>repo_url := read_text (repo_url r),
       repo_name := read_text (repo_name r),
       username := read_text (username r),
       profile_url := read_text (profile_url r),
       name := read_text (name r),
       email := read_text (email r),
       commit_email := read_text (commit_email r),
       website := read_text (website r),
       location := read_text (location r),
       company := read_text (company r),
       twitter := read_text (twitter r),
       bio := read_text (bio r),
       account_created := read_text (account_created r)\<rparr>"

definition read_excel :: "row list \<Rightarrow> row list" where
  "read_excel sheet = map read_row sheet"

definition read_file :: "stored_file \<Rightarrow> stored_file" where
  "read_file f =
     (case f of
        Workbook wb \<Rightarrow> Workbook (wb\<lparr>all_contributors := read_excel (all_contributors wb)\<rparr>)
      | other \<Rightarrow> other)"

text \<open>The file system as the reader delivers it.\<close>

definition as_read :: "store \<Rightarrow> store" where
  "as_read st = st\<lparr>files := (\<lambda>path. map_option read_file (files st path))\<rparr>"

text \<open>
  A run from the files as they are on disk: every workbook is read by the reader, and
  the target then holds the frame written. The files the run does not write are kept as
  they were read; reading them again changes nothing.
\<close>

definition save_to_excel_on_disk ::
  "store \<Rightarrow> write_outcome \<Rightarrow> row list \<Rightarrow> string \<Rightarrow> string option \<Rightarrow> store" where
  "save_to_excel_on_disk st io contributors filename check_directory =
     save_to_excel (as_read st) io contributors filename check_directory"

fun save_runs_on_disk ::
  "store \<Rightarrow> string \<Rightarrow> string option \<Rightarrow> (write_outcome \<times> row list) list \<Rightarrow> store" where
  "save_runs_on_disk st filename check_directory [] = st"
| "save_runs_on_disk st filename check_directory ((io, contributors) # runs) =
     save_runs_on_disk (save_to_excel_on_disk st io contributors filename check_directory)
       filename check_directory runs"

section \<open>Notions of the specification, and sample data\<close>

text \<open>
  A value has a URL scheme when \<^verbatim>\<open>urlparse\<close> finds one: a letter followed by letters,
  digits and \<^verbatim>\<open>+-.\<close> up to a colon.
\<close>

definition has_url_scheme :: "string \<Rightarrow> bool" where
  "has_url_scheme s \<longleftrightarrow> fst (split_scheme s) \<noteq> []"

text \<open>A push event older than the cutoff: the only event that ends the scan of the feed.\<close>

definition old_push :: "int \<Rightarrow> event \<Rightarrow> bool" where
  "old_push cutoff_date e \<longleftrightarrow> ev_type e = ''PushEvent'' \<and> ev_created_at e < cutoff_date"

text \<open>The commits of the push events of a list of events that lie in the window.\<close>

definition in_window_commits :: "int \<Rightarrow> event list \<Rightarrow> nat" where
  "in_window_commits cutoff_date evs =
     sum_list (map (\<lambda>e. length (ev_commits e))
       (filter (\<lambda>e. ev_type e = ''PushEvent'' \<and> ev_created_at e \<ge> cutoff_date) evs))"

text \<open>The events of a page as served: none when the request does not answer 200.\<close>

definition page_events :: "env \<Rightarrow> string \<Rightarrow> nat \<Rightarrow> event list" where
  "page_events E uname page =
     (case events_page E uname page of Ok_200 evs \<Rightarrow> evs | _ \<Rightarrow> [])"

text \<open>The feed of a user, as the pages \<open>1, \<dots>, m\<close> hold it.\<close>

definition feed :: "env \<Rightarrow> string \<Rightarrow> nat \<Rightarrow> event list" where
  "feed E uname m = concat (map (page_events E uname) [1..<Suc m])"

text \<open>
  The events of the pages up to the first page that is empty or not served: what three
  requests can bring.
\<close>

fun fetched :: "env \<Rightarrow> string \<Rightarrow> nat list \<Rightarrow> event list" where
  "fetched E uname [] = []"
| "fetched E uname (page # pages) =
     (if page_events E uname page = [] then []
      else page_events E uname page @ fetched E uname pages)"

text \<open>
  The estimate as the specification words it: the scan stops the first time it meets an
  event older than the cutoff, of whatever type.
\<close>

fun scan_events_as_specified :: "int \<Rightarrow> nat \<Rightarrow> event list \<Rightarrow> scan" where
  "scan_events_as_specified cutoff_date total_commits [] = Continue total_commits"
| "scan_events_as_specified cutoff_date total_commits (e # es) =
     (if ev_created_at e < cutoff_date then Return total_commits
      else if ev_type e = ''PushEvent''
      then scan_events_as_specified cutoff_date (total_commits + length (ev_commits e)) es
      else scan_events_as_specified cutoff_date total_commits es)"

fun events_loop_as_specified ::
  "env \<Rightarrow> int \<Rightarrow> string \<Rightarrow> nat list \<Rightarrow> nat \<Rightarrow> call list \<times> (exn + nat)" where
  "events_loop_as_specified E cutoff_date uname [] total_commits = ([], Inr total_commits)"
| "events_loop_as_specified E cutoff_date uname (page # pages) total_commits =
     (case events_page E uname page of
        Raises \<Rightarrow> ([Events_page uname page], Inl Request_exception)
      | Not_ok \<Rightarrow> ([Events_page uname page], Inr total_commits)
      | Ok_200 events \<Rightarrow>
          if events = [] then ([Events_page uname page], Inr total_commits)
          else (case scan_events_as_specified cutoff_date total_commits events of
                  Return t \<Rightarrow> ([Events_page uname page], Inr t)
                | Continue t \<Rightarrow>
                    (let (calls, r) = events_loop_as_specified E cutoff_date uname pages t
                     in (Events_page uname page # calls, r))))"

definition estimate_as_specified :: "env \<Rightarrow> int \<Rightarrow> string \<Rightarrow> call list \<times> (exn + nat)" where
  "estimate_as_specified E now uname =
     events_loop_as_specified E (cutoff now) uname [1, 2, 3] 0"

text \<open>The contributors a log has requests for.\<close>

definition served :: "log \<Rightarrow> string set" where
  "served l = {u. \<exists>c. (Some u, c) \<in> set l}"

text \<open>An environment in which no request is answered with 200, and the scraper finds nothing.\<close>

definition offline :: env where
  "offline =
     \<lparr>has_token = False,
      repo_contributors = (\<lambda>owner repo. Inr []),
      graphql_contributions = (\<lambda>u. Not_ok),
      events_page = (\<lambda>u page. Not_ok),
      user_api = (\<lambda>u. Not_ok),
      user_repos = (\<lambda>u q. Not_ok),
      commits_by_author = (\<lambda>u repo. Not_ok),
      commit_author_email = (\<lambda>repo sha. Not_ok),
      pinned_repos = (\<lambda>u. Inr [])\<rparr>"

text \<open>A row with a username and an email, and nothing else.\<close>

definition sample_row :: "string \<Rightarrow> string \<Rightarrow> row" where
  "sample_row uname mail =
     \<lparr>repo_url = None, repo_name = None, username = Some uname,
      repo_contributions = None, yearly_contributions = None, profile_url = None,
      name = None, email = Some mail, commit_email = None, website = None,
      location = None, company = None, twitter = None, bio = None,
      public_repos = None, followers = None, following = None, account_created = None\<rparr>"

text \<open>A file system without files, where paths are absolute already.\<close>

definition empty_store :: store where
  "empty_store = \<lparr>files = Map.empty, listdir = Map.empty, abspath = (\<lambda>p. p)\<rparr>"

text \<open>A workbook that holds the given rows, and a file system with that workbook only.\<close>

definition sheet_of :: "row list \<Rightarrow> workbook" where
  "sheet_of rows =
     \<lparr>all_contributors = rows,
      contact_information = filter has_contact rows,
      progress_log =
        \<lparr>total_contributors = length rows, total_repositories = 0,
         new_contributors_added = length rows, contributors_with_email = 0,
         duplicates_removed_internal = 0, duplicates_removed_external = 0,
         excel_files_checked = 0, directory_scanned = ''None''\<rparr>,
      duplicates_filtered = None\<rparr>"

definition store_with :: "string \<Rightarrow> row list \<Rightarrow> store" where
  "store_with f rows = empty_store\<lparr>files := [f \<mapsto> Workbook (sheet_of rows)]\<rparr>"

text \<open>Events, and an environment whose event feed is the given pages for every user.\<close>

definition push_event :: "int \<Rightarrow> nat \<Rightarrow> event" where
  "push_event t k = \<lparr>ev_type = ''PushEvent'', ev_created_at = t, ev_commits = replicate k ''sha''\<rparr>"

definition watch_event :: "int \<Rightarrow> event" where
  "watch_event t = \<lparr>ev_type = ''WatchEvent'', ev_created_at = t, ev_commits = []\<rparr>"

definition feed_env :: "event list list \<Rightarrow> env" where
  "feed_env pages =
     offline\<lparr>events_page :=
       (\<lambda>u page. if 0 < page \<and> page \<le> length pages then Ok_200 (pages ! (page - 1))
                  else Ok_200 [])\<rparr>"

text \<open>
  Email discovery as the specification words it: an ordered list of repositories, each
  scanned until one scan yields an email. \<open>repo_email\<close> is the result of the scan of one
  repository, \<open>first_found\<close> the email of the first repository whose scan yields one, and
  \<open>tried\<close> the repositories scanned: those up to and including that first one.
\<close>

definition repo_email :: "env \<Rightarrow> string \<Rightarrow> string \<Rightarrow> string option" where
  "repo_email E u r = snd (extract_email_from_repo_commits E u r)"

fun first_found :: "env \<Rightarrow> string \<Rightarrow> string list \<Rightarrow> string option" where
  "first_found E u [] = None"
| "first_found E u (r # rs) =
     (if truthy (repo_email E u r) then repo_email E u r else first_found E u rs)"

fun tried :: "env \<Rightarrow> string \<Rightarrow> string list \<Rightarrow> string list" where
  "tried E u [] = []"
| "tried E u (r # rs) = (if truthy (repo_email E u r) then [r] else r # tried E u rs)"

text \<open>
  The repositories of the first two strategies, as the listings give them: up to 10 of
  the listing requested with \<open>repos_params\<close> and, when that listing is not empty, up to 5
  of the listing requested with \<open>recent_params\<close>.
\<close>

definition own_candidates :: "env \<Rightarrow> string \<Rightarrow> string list" where
  "own_candidates E u =
     (case user_repos E u repos_params of
        Ok_200 repos \<Rightarrow>
          if repos = [] then []
          else take 10 repos
                 @ (case user_repos E u recent_params of Ok_200 recent \<Rightarrow> take 5 recent | _ \<Rightarrow> [])
      | _ \<Rightarrow> [])"

text \<open>The repositories whose commits a sequence of requests lists, in order.\<close>

fun scans_of :: "call list \<Rightarrow> string list" where
  "scans_of [] = []"
| "scans_of (List_commits u r # cs) = r # scans_of cs"
| "scans_of (c # cs) = scans_of cs"

text \<open>The user a request is about, when it names one.\<close>

fun call_user :: "call \<Rightarrow> string option" where
  "call_user (List_contributors owner repo) = None"
| "call_user (Graphql_contributions u) = Some u"
| "call_user (Events_page u page) = Some u"
| "call_user (User_profile u) = Some u"
| "call_user (List_repos u q) = Some u"
| "call_user (List_commits u r) = Some u"
| "call_user (Commit_detail r sha) = None"
| "call_user (Pinned_profile u) = Some u"

text \<open>
  An environment for email discovery: the listing of every user's repositories of
  type \<^verbatim>\<open>all\<close> and the listing of the other types, the pinned repositories, and for
  each repository its commits, newest first, each with its author email.
\<close>

definition mail_env ::
  "string list \<Rightarrow> string list \<Rightarrow> string list \<Rightarrow> (string \<times> (string \<times> string option) list) list
     \<Rightarrow> env" where
  "mail_env created recent pinned commits =
     offline\<lparr>user_repos :=
               (\<lambda>u q. if q_type q = ''all'' then Ok_200 created else Ok_200 recent),
             pinned_repos := (\<lambda>u. Inr pinned),
             commits_by_author :=
               (\<lambda>u r. case map_of commits r of
                         None \<Rightarrow> Not_ok
                       | Some cs \<Rightarrow> Ok_200 (map fst cs)),
             commit_author_email :=
               (\<lambda>r sha. case map_of commits r of
                           None \<Rightarrow> Not_ok
                         | Some cs \<Rightarrow>
                             (case map_of cs sha of None \<Rightarrow> Not_ok | Some e \<Rightarrow> Ok_200 e))\<rparr>"

text \<open>
  An environment for a repository scan: the contributors listed for every repository,
  and the yearly total the GraphQL endpoint reports for every user.
\<close>

definition team_env :: "candidate list \<Rightarrow> int \<Rightarrow> env" where
  "team_env listed yearly =
     offline\<lparr>has_token := True,
             repo_contributors := (\<lambda>owner repo. Inr listed),
             graphql_contributions := (\<lambda>u. Ok_200 (Gql_total yearly))\<rparr>"

text \<open>
  An environment for a repository scan in which the profile page of one user cannot be
  fetched: the scraper raises for that user and finds nothing for the others.
\<close>

definition scraper_env :: "candidate list \<Rightarrow> int \<Rightarrow> string \<Rightarrow> env" where
  "scraper_env listed yearly bad =
     (team_env listed yearly)
       \<lparr>pinned_repos := (\<lambda>u. if u = bad then Inl Request_exception else Inr [])\<rparr>"

text \<open>Requests that only list the commits of \<open>u\<close> in a repository or read a commit.\<close>

definition scan_calls :: "string \<Rightarrow> call list \<Rightarrow> bool" where
  "scan_calls u cs \<longleftrightarrow>
     (\<forall>c\<in>set cs. (\<exists>r. c = List_commits u r) \<or> (\<exists>r sha. c = Commit_detail r sha))"

text \<open>Requests none of which is about a user other than \<open>u\<close>.\<close>

definition about :: "string \<Rightarrow> call list \<Rightarrow> bool" where
  "about u cs \<longleftrightarrow> (\<forall>c\<in>set cs. call_user c = None \<or> call_user c = Some u)"

text \<open>The contributors listed for the repository a URL names; none when there is no listing.\<close>

definition listed_for :: "env \<Rightarrow> string \<Rightarrow> candidate list" where
  "listed_for E url =
     (case parse_repo_url url of
        (Some owner, Some repo) \<Rightarrow>
          (case repo_contributors E owner repo of Inr listed \<Rightarrow> listed | Inl x \<Rightarrow> [])
      | _ \<Rightarrow> [])"

section \<open>Properties of the string operations\<close>

lemma str_contains_iff: "str_contains p s \<longleftrightarrow> (\<exists>pre suf. s = pre @ p @ suf)"
proof (induction s)
  case Nil
  then show ?case by auto
next
  case (Cons c cs)
  show ?case
  proof
    assume "str_contains p (c # cs)"
    then consider "prefix p (c # cs)" | "str_contains p cs" by auto
    then show "\<exists>pre suf. c # cs = pre @ p @ suf"
    proof cases
      case 1
      then obtain suf where "c # cs = p @ suf" by (auto simp: prefix_def)
      then have "c # cs = [] @ p @ suf" by simp
      then show ?thesis by blast
    next
      case 2
      with Cons.IH obtain pre suf where "cs = pre @ p @ suf" by blast
      then have "c # cs = (c # pre) @ p @ suf" by simp
      then show ?thesis by blast
    qed
  next
    assume "\<exists>pre suf. c # cs = pre @ p @ suf"
    then obtain pre suf where eq: "c # cs = pre @ p @ suf" by blast
    show "str_contains p (c # cs)"
    proof (cases pre)
      case Nil
      with eq have "prefix p (c # cs)" by (simp add: prefix_def)
      then show ?thesis by simp
    next
      case (Cons a pre')
      with eq have "cs = pre' @ p @ suf" by simp
      with Cons.IH have "str_contains p cs" by blast
      then show ?thesis by simp
    qed
  qed
qed

lemma any_pattern_in_iff: "any_pattern_in ps s \<longleftrightarrow> (\<exists>p\<in>set ps. str_contains p s)"
  by (induction ps) auto

lemma str_split_not_Nil: "str_split sep s \<noteq> []"
  by (induction s) (auto split: list.splits)

lemma str_split_no_sep: "sep \<notin> set s \<Longrightarrow> str_split sep s = [s]"
  by (induction s) auto

lemma str_split_sep: "sep \<in> set s \<Longrightarrow> tl (str_split sep s) \<noteq> []"
proof (induction s)
  case Nil
  then show ?case by simp
next
  case (Cons c cs)
  show ?case
  proof (cases "c = sep")
    case True
    then show ?thesis by (simp add: str_split_not_Nil)
  next
    case False
    with Cons.prems have "sep \<in> set cs" by simp
    with Cons.IH have "tl (str_split sep cs) \<noteq> []" by simp
    with False show ?thesis by (cases "str_split sep cs") auto
  qed
qed

lemma takeWhile_snoc_stop: "\<not> P y \<Longrightarrow> takeWhile P (xs @ [y]) = takeWhile P xs"
  by (induction xs) auto

lemma last_str_split:
  "last (str_split sep s) = rev (takeWhile (\<lambda>x. x \<noteq> sep) (rev s))"
proof (induction s)
  case Nil
  then show ?case by simp
next
  case (Cons c cs)
  let ?P = "\<lambda>x. x \<noteq> sep"
  show ?case
  proof (cases "c = sep")
    case True
    have "takeWhile ?P (rev cs @ [sep]) = takeWhile ?P (rev cs)"
      by (rule takeWhile_snoc_stop) simp
    moreover have "last (str_split sep (c # cs)) = last (str_split sep cs)"
      using True by (simp add: str_split_not_Nil)
    ultimately show ?thesis using True Cons.IH by simp
  next
    case False
    show ?thesis
    proof (cases "sep \<in> set cs")
      case True
      then have "tl (str_split sep cs) \<noteq> []" by (rule str_split_sep)
      then obtain w ws where ws: "str_split sep cs = w # ws" "ws \<noteq> []"
        by (cases "str_split sep cs") auto
      have l1: "last (str_split sep (c # cs)) = last ws"
        using False ws by simp
      have l2: "last (str_split sep cs) = last ws"
        using ws by simp
      have "\<exists>x\<in>set (rev cs). \<not> ?P x" using True by simp
      then obtain x where "x \<in> set (rev cs)" "\<not> ?P x" by blast
      then have "takeWhile ?P (rev cs @ [c]) = takeWhile ?P (rev cs)"
        by (rule takeWhile_append1)
      then have "rev (takeWhile ?P (rev (c # cs))) = rev (takeWhile ?P (rev cs))"
        by simp
      with l1 l2 Cons.IH show ?thesis by (simp only:)
    next
      case nin: False
      then have "\<And>x. x \<in> set (rev cs @ [c]) \<Longrightarrow> ?P x" using False by auto
      then have "takeWhile ?P (rev cs @ [c]) = rev cs @ [c]"
        by (simp only: takeWhile_eq_all_conv) blast
      then have "rev (takeWhile ?P (rev (c # cs))) = c # cs" by simp
      moreover have "last (str_split sep (c # cs)) = c # cs"
        using nin False by (simp add: str_split_no_sep)
      ultimately show ?thesis by (simp only:)
    qed
  qed
qed

lemma domain_part_iff:
  "sep \<in> set s \<and> d \<in> set (last (str_split sep s)) \<longleftrightarrow>
     (\<exists>loc dom. s = loc @ [sep] @ dom \<and> sep \<notin> set dom \<and> d \<in> set dom)"
proof
  assume a: "sep \<in> set s \<and> d \<in> set (last (str_split sep s))"
  let ?P = "\<lambda>x. x \<noteq> sep"
  let ?dom = "rev (takeWhile ?P (rev s))"
  let ?pre = "rev (dropWhile ?P (rev s))"
  have "?pre @ ?dom = rev (takeWhile ?P (rev s) @ dropWhile ?P (rev s))"
    by (simp only: rev_append)
  then have s: "s = ?pre @ ?dom"
    by (simp only: takeWhile_dropWhile_id rev_rev_ident)
  have nd: "sep \<notin> set ?dom"
    using set_takeWhileD [of sep ?P "rev s"] by auto
  from a have ne: "dropWhile ?P (rev s) \<noteq> []"
    by (simp add: dropWhile_eq_Nil_conv)
  then have "\<not> ?P (hd (dropWhile ?P (rev s)))" by (rule hd_dropWhile)
  then have "hd (dropWhile ?P (rev s)) = sep" by simp
  with ne have "last ?pre = sep" "?pre \<noteq> []"
    by (simp_all add: last_rev)
  then have "?pre = butlast ?pre @ [sep]"
    using append_butlast_last_id [of ?pre] by simp
  then obtain loc where "?pre = loc @ [sep]" by blast
  with s have "s = loc @ [sep] @ ?dom" by simp
  moreover from a have "d \<in> set ?dom" by (simp only: last_str_split)
  ultimately show "\<exists>loc dom. s = loc @ [sep] @ dom \<and> sep \<notin> set dom \<and> d \<in> set dom"
    using nd by blast
next
  assume "\<exists>loc dom. s = loc @ [sep] @ dom \<and> sep \<notin> set dom \<and> d \<in> set dom"
  then obtain loc dom where s: "s = loc @ [sep] @ dom" and nd: "sep \<notin> set dom" and d: "d \<in> set dom"
    by blast
  have "rev s = rev dom @ sep # rev loc" using s by simp
  moreover have "takeWhile (\<lambda>x. x \<noteq> sep) (rev dom @ sep # rev loc)
      = takeWhile (\<lambda>x. x \<noteq> sep) (rev dom)"
    by (rule takeWhile_tail) simp
  moreover have "takeWhile (\<lambda>x. x \<noteq> sep) (rev dom) = rev dom"
    using nd by (auto simp: takeWhile_eq_all_conv)
  ultimately have "takeWhile (\<lambda>x. x \<noteq> sep) (rev s) = rev dom" by (simp only:)
  then have "last (str_split sep s) = dom" by (simp only: last_str_split rev_rev_ident)
  with s d show "sep \<in> set s \<and> d \<in> set (last (str_split sep s))" by simp
qed

section \<open>The validity filter for emails\<close>

text \<open>
  Claim C6, with the pattern test as the code makes it, on the lower-cased address: an
  address is accepted exactly when none of the configured patterns occurs in its
  lower-cased form and it splits at an \<^verbatim>\<open>@\<close> into a local part and a domain part that
  has no \<^verbatim>\<open>@\<close> and has a dot. Of the two candidates of the specification only the
  second is accepted.
\<close>

theorem is_valid_email_iff:
  "(is_valid_email e \<longleftrightarrow>
      (\<forall>p\<in>set FAKE_EMAIL_PATTERNS. \<not> (\<exists>pre suf. str_lower e = pre @ p @ suf)) \<and>
      (\<exists>loc dom. e = loc @ ''@'' @ dom \<and> CHR ''@'' \<notin> set dom \<and> CHR ''.'' \<in> set dom))
   \<and> filter is_valid_email [''noreply@users.noreply.github.com'', ''real.person@gmail.com'']
       = [''real.person@gmail.com'']"
proof
  have ne: "CHR ''@'' \<in> set e \<Longrightarrow> e \<noteq> []" by auto
  show "is_valid_email e \<longleftrightarrow>
      (\<forall>p\<in>set FAKE_EMAIL_PATTERNS. \<not> (\<exists>pre suf. str_lower e = pre @ p @ suf)) \<and>
      (\<exists>loc dom. e = loc @ ''@'' @ dom \<and> CHR ''@'' \<notin> set dom \<and> CHR ''.'' \<in> set dom)"
    unfolding is_valid_email_def any_pattern_in_iff str_contains_iff
      domain_part_iff [of "CHR ''@''" e "CHR ''.''"]
    by auto
  show "filter is_valid_email [''noreply@users.noreply.github.com'', ''real.person@gmail.com'']
       = [''real.person@gmail.com'']"
    by code_simp
qed

theorem is_valid_email_iff_witness:
  "is_valid_email ''a@b.c'' \<and> \<not> is_valid_email ''root@localhost''"
  using is_valid_email_iff [of "''a@b.c''"] is_valid_email_iff [of "''root@localhost''"]
  by (simp add: is_valid_email_def FAKE_EMAIL_PATTERNS_def str_lower_def ascii_lower_def)

text \<open>
  The pattern test is not a test on the address as written: \<^verbatim>\<open>NoReply@gmail.com\<close>
  contains none of the configured patterns and has a dotted domain, and is rejected.
\<close>

theorem is_valid_email_case_counterexample:
  "\<not> any_pattern_in FAKE_EMAIL_PATTERNS ''NoReply@gmail.com''
   \<and> CHR ''@'' \<in> set ''NoReply@gmail.com''
   \<and> CHR ''.'' \<in> set (last (str_split CHR ''@'' ''NoReply@gmail.com''))
   \<and> \<not> is_valid_email ''NoReply@gmail.com''"
  by code_simp

section \<open>The profile and its website field\<close>

lemma clean_blog_url_http:
  "clean_blog_url (Some s) = Some t \<Longrightarrow> s \<noteq> [] \<Longrightarrow> prefix ''http'' t"
  by (auto simp: clean_blog_url_def split: if_splits)

text \<open>
  Claim C10, with the test the code makes: an absent or empty website is passed through;
  a non-empty one that does not start with \<^verbatim>\<open>http\<close> gets \<^verbatim>\<open>https://\<close> in front; one that
  starts with \<^verbatim>\<open>http\<close> is returned as it is; so every non-empty website returned starts
  with \<^verbatim>\<open>http\<close>. On a status other than 200 the profile is the empty dictionary, and on
  200 it is the data with the website cleaned.
\<close>

theorem clean_blog_url_cases:
  "(clean_blog_url None = None \<and> clean_blog_url (Some []) = Some [])
   \<and> (s \<noteq> [] \<and> \<not> prefix ''http'' s \<longrightarrow> clean_blog_url (Some s) = Some (''https://'' @ s))
   \<and> (prefix ''http'' s \<longrightarrow> clean_blog_url (Some s) = Some s)
   \<and> (s \<noteq> [] \<longrightarrow> (\<exists>t. clean_blog_url (Some s) = Some t \<and> prefix ''http'' t))
   \<and> (user_api E u = Not_ok \<longrightarrow> get_user_profile E u = ([User_profile u], Inr None))
   \<and> (user_api E u = Ok_200 data \<longrightarrow>
        get_user_profile E u
          = ([User_profile u], Inr (Some (data\<lparr>u_blog := clean_blog_url (u_blog data)\<rparr>))))"
  by (auto simp: clean_blog_url_def get_user_profile_def)

theorem clean_blog_url_cases_witness:
  "clean_blog_url (Some ''example.org'') = Some ''https://example.org''
   \<and> clean_blog_url (Some ''http://example.org'') = Some ''http://example.org''
   \<and> get_user_profile offline ''alice'' = ([User_profile ''alice''], Inr None)"
  using clean_blog_url_cases [of "''example.org''" offline "''alice''"]
    clean_blog_url_cases [of "''http://example.org''" offline "''alice''"]
  by (simp add: offline_def)

text \<open>
  The test is on the first four characters, not on the scheme: \<^verbatim>\<open>httpbin.org\<close> has no
  scheme and is returned as it is, and \<^verbatim>\<open>ftp://example.org\<close> has one and is prefixed.
\<close>

theorem clean_blog_url_scheme_counterexample:
  "\<not> has_url_scheme ''httpbin.org''
   \<and> clean_blog_url (Some ''httpbin.org'') = Some ''httpbin.org''
   \<and> has_url_scheme ''ftp://example.org''
   \<and> clean_blog_url (Some ''ftp://example.org'') = Some ''https://ftp://example.org''"
  by code_simp

section \<open>The links of a README\<close>

text \<open>
  Claim C4 at a seed whose name has capital letters: the README of \<^verbatim>\<open>Foo/Bar\<close> links
  to \<^verbatim>\<open>Foo/Bar\<close> itself and to \<^verbatim>\<open>a/b\<close>. The target of each link is lower-cased before
  the comparison and the name of the seed is not, so the link to the seed is returned
  with the external one.
\<close>

theorem readme_self_reference_kept:
  "get_list_of_repo_urls_from_readme
     ''see https://github.com/Foo/Bar and https://github.com/a/b'' ''Foo'' ''Bar''
   = [''https://github.com/Foo/Bar'', ''https://github.com/a/b'']"
  by code_simp

section \<open>The fallback file\<close>

text \<open>
  Claim C9 at a target whose name does not contain \<^verbatim>\<open>.xlsx\<close>: the name of the fallback
  file is the name of the target, so the delimited rows are written at the target path
  itself. A later run cannot read that file as a workbook, starts from the empty frame
  and, when its write fails as well, leaves only its own batch there.
\<close>

theorem csv_fallback_takes_target_name:
  "csv_filename ''results.xls'' = ''results.xls''
   \<and> files (save_to_excel empty_store (Excel_fails None)
               [sample_row ''alice'' ''a@b.org''] ''results.xls'' None) ''results.xls''
       = Some (Csv_file [sample_row ''alice'' ''a@b.org''])
   \<and> files (save_runs empty_store ''results.xls'' None
               [(Excel_fails None, [sample_row ''alice'' ''a@b.org'']),
                (Excel_fails (Some (Csv_file [sample_row ''alice'' ''a@b.org''])),
                 [sample_row ''bob'' ''b@c.org''])]) ''results.xls''
       = Some (Csv_file [sample_row ''bob'' ''b@c.org''])"
  by code_simp

section \<open>The merge of a batch into the store\<close>

lemma dedup_seen_keys:
  "username ` set (dedup_seen S xs) = username ` set xs - S"
  by (induction xs arbitrary: S) auto

lemma dedup_seen_distinct: "distinct (map username (dedup_seen S xs))"
  by (induction xs arbitrary: S) (auto simp: dedup_seen_keys)

lemma dedup_seen_append:
  "dedup_seen S (xs @ ys) = dedup_seen S xs @ dedup_seen (S \<union> set (map username xs)) ys"
proof (induction xs arbitrary: S)
  case Nil
  then show ?case by simp
next
  case (Cons x xs)
  have "insert (username x) S \<union> set (map username xs)
      = S \<union> set (map username (x # xs))" by auto
  moreover have "username x \<in> S \<Longrightarrow> S \<union> set (map username xs) = S \<union> set (map username (x # xs))"
    by auto
  ultimately show ?case using Cons.IH by (simp del: list.map set_map)
qed

lemma dedup_seen_covered: "set (map username ys) \<subseteq> S \<Longrightarrow> dedup_seen S ys = []"
  by (induction ys) auto

lemma dedup_seen_id:
  "distinct (map username xs) \<Longrightarrow> set (map username xs) \<inter> S = {} \<Longrightarrow> dedup_seen S xs = xs"
  by (induction xs arbitrary: S) auto


lemma drop_duplicates_keys: "username ` set (drop_duplicates xs) = username ` set xs"
  by (simp add: drop_duplicates_def dedup_seen_keys)

lemma drop_duplicates_distinct: "distinct (map username (drop_duplicates xs))"
  by (simp add: drop_duplicates_def dedup_seen_distinct)

lemma usernames_of_keys: "usernames_of df = {u. Some u \<in> username ` set df}"
  by (induction df) (auto simp: usernames_of_def map_filter_simps split: option.splits)

lemma isin_keys: "isin r X \<longleftrightarrow> (\<exists>u. username r = Some u \<and> u \<in> X)"
  by (auto simp: isin_def split: option.splits)

lemma filter_guard:
  "(if usernames_of n \<inter> X \<noteq> {} then filter (\<lambda>r. \<not> isin r X) n else n)
     = filter (\<lambda>r. \<not> isin r X) n"
proof (cases "usernames_of n \<inter> X \<noteq> {}")
  case True
  then show ?thesis by simp
next
  case False
  have "\<And>r. r \<in> set n \<Longrightarrow> \<not> isin r X"
  proof
    fix r assume r: "r \<in> set n" and "isin r X"
    then obtain u where u: "username r = Some u" "u \<in> X" by (auto simp: isin_keys)
    with r have "u \<in> usernames_of n" by (force simp: usernames_of_keys)
    with u False show False by blast
  qed
  then have "filter (\<lambda>r. \<not> isin r X) n = n" by (simp add: filter_id_conv)
  with False show ?thesis by simp
qed

lemma combined_df_merge_batch:
  "combined_df (merge_batch st B f d)
     = drop_duplicates (load_existing st f
         @ filter (\<lambda>r. \<not> isin r (fst (scan_directory st f d) \<union> usernames_of (load_existing st f)))
             (drop_duplicates B))"
proof -
  obtain D n where sd: "scan_directory st f d = (D, n)" by (cases "scan_directory st f d")
  let ?E = "load_existing st f"
  let ?X = "D \<union> usernames_of ?E"
  let ?n1 = "drop_duplicates B"
  let ?n2 = "filter (\<lambda>r. \<not> isin r ?X) ?n1"
  have g: "(if usernames_of ?n1 \<inter> ?X \<noteq> {} then ?n2 else ?n1) = ?n2"
    by (rule filter_guard)
  have e: "(if ?E \<noteq> [] then ?E @ ?n2 else ?n2) = ?E @ ?n2" by simp
  have "combined_df (merge_batch st B f d)
      = drop_duplicates (if ?E \<noteq> [] then ?E @ (if usernames_of ?n1 \<inter> ?X \<noteq> {} then ?n2 else ?n1)
                         else (if usernames_of ?n1 \<inter> ?X \<noteq> {} then ?n2 else ?n1))"
    unfolding merge_batch_def Let_def sd by simp
  also have "\<dots> = drop_duplicates (?E @ ?n2)" by (simp only: g e)
  finally show ?thesis by (simp only: sd fst_conv)
qed


lemma files_save_written:
  "B \<noteq> [] \<Longrightarrow>
   files (save_to_excel st Excel_written B f d) f
     = Some (Workbook (build_workbook (merge_batch st B f d) d))"
  by (simp add: save_to_excel_def Let_def)

lemma files_save_other:
  "p \<noteq> f \<Longrightarrow> files (save_to_excel st Excel_written B f d) p = files st p"
  by (simp add: save_to_excel_def Let_def)

lemma files_save_failed:
  "B \<noteq> [] \<Longrightarrow>
   files (save_to_excel st (Excel_fails leftover) B f d) (csv_filename f)
     = Some (Csv_file (combined_df (merge_batch st B f d)))"
  by (simp add: save_to_excel_def Let_def)

lemma all_contributors_build: "all_contributors (build_workbook m d) = combined_df m"
  by (simp add: build_workbook_def Let_def)

text \<open>
  The frame a run with a non-empty batch writes has no username twice (a missing
  username counts as one value), whatever the runs before it; so has the frame written
  to the fallback file. This is the frame in memory: what the sheet reads back as is
  the matter of the section on reading below.
\<close>

lemma written_frame_unique:
  "contributors \<noteq> [] \<Longrightarrow>
   (\<exists>wb. files (save_to_excel (save_runs st f d runs) Excel_written contributors f d) f
            = Some (Workbook wb)
        \<and> distinct (map username (all_contributors wb)))
   \<and> (\<exists>rows. files (save_to_excel (save_runs st f d runs) (Excel_fails leftover) contributors f d)
                 (csv_filename f) = Some (Csv_file rows)
        \<and> distinct (map username rows))"
  by (simp add: files_save_written files_save_failed all_contributors_build
      combined_df_merge_batch drop_duplicates_distinct)

lemma scan_workbooks_cong:
  "(\<And>p. p \<in> set ps \<Longrightarrow> files st' p = files st p) \<Longrightarrow>
   scan_workbooks st' ps acc = scan_workbooks st ps acc"
proof (induction ps arbitrary: acc)
  case Nil
  then show ?case by simp
next
  case (Cons p ps)
  obtain U n where acc: "acc = (U, n)" by (cases acc)
  have f: "files st' p = files st p" using Cons.prems by simp
  have r: "\<And>a. scan_workbooks st' ps a = scan_workbooks st ps a"
    using Cons.IH Cons.prems by simp
  show ?case unfolding acc by (simp add: f r split: option.splits stored_file.splits)
qed

lemma excel_files_not_target: "p \<in> set (excel_files st f d) \<Longrightarrow> p \<noteq> f"
  by (auto simp: excel_files_def)

lemma save_listdir [simp]: "listdir (save_to_excel st io B f d) = listdir st"
  by (simp add: save_to_excel_def Let_def split: write_outcome.splits)

lemma save_abspath [simp]: "abspath (save_to_excel st io B f d) = abspath st"
  by (simp add: save_to_excel_def Let_def split: write_outcome.splits)

lemma scan_directory_save:
  "scan_directory (save_to_excel st Excel_written B f d') f d = scan_directory st f d"
proof -
  let ?st' = "save_to_excel st Excel_written B f d'"
  have ef: "excel_files ?st' f x = excel_files st f x" for x
    by (simp add: excel_files_def)
  have "scan_workbooks ?st' (excel_files st f x) a = scan_workbooks st (excel_files st f x) a"
    for x a
    by (rule scan_workbooks_cong) (simp add: files_save_other excel_files_not_target)
  then show ?thesis by (simp add: scan_directory_def ef split: option.splits)
qed

lemma load_existing_save:
  "B \<noteq> [] \<Longrightarrow>
   load_existing (save_to_excel st Excel_written B f d) f = combined_df (merge_batch st B f d)"
  by (simp add: load_existing_def files_save_written all_contributors_build)

lemma usernames_of_mono: "username ` set xs \<subseteq> username ` set ys \<Longrightarrow> usernames_of xs \<subseteq> usernames_of ys"
  by (auto simp: usernames_of_keys)

lemma isin_mono: "isin r X \<Longrightarrow> X \<subseteq> Y \<Longrightarrow> isin r Y"
  by (auto simp: isin_keys)

lemma merge_again_gen:
  assumes E2: "load_existing st' f = combined_df (merge_batch st B f d)"
    and D2: "scan_directory st' f d = scan_directory st f d"
  shows "combined_df (merge_batch st' B f d) = combined_df (merge_batch st B f d)"
proof -
  let ?D = "fst (scan_directory st f d)"
  let ?E = "load_existing st f"
  let ?X = "?D \<union> usernames_of ?E"
  let ?N = "filter (\<lambda>r. \<not> isin r ?X) (drop_duplicates B)"
  let ?C = "drop_duplicates (?E @ ?N)"
  let ?X2 = "?D \<union> usernames_of ?C"
  let ?N2 = "filter (\<lambda>r. \<not> isin r ?X2) (drop_duplicates B)"
  have C: "combined_df (merge_batch st B f d) = ?C" by (rule combined_df_merge_batch)
  have E2': "load_existing st' f = ?C" using E2 C by simp
  have C2: "combined_df (merge_batch st' B f d) = drop_duplicates (?C @ ?N2)"
    by (simp only: combined_df_merge_batch E2' D2)
  have keysC: "username ` set ?C = username ` set ?E \<union> username ` set ?N"
    by (simp add: drop_duplicates_keys image_Un)
  then have "usernames_of ?E \<subseteq> usernames_of ?C"
    by (intro usernames_of_mono) simp
  then have sub: "?X \<subseteq> ?X2" by auto
  have "set ?N2 \<subseteq> set ?N" using isin_mono [OF _ sub] by auto
  then have "username ` set ?N2 \<subseteq> username ` set ?C" using keysC by auto
  then have cov: "dedup_seen ({} \<union> set (map username ?C)) ?N2 = []"
    by (intro dedup_seen_covered) simp
  have idC: "dedup_seen {} ?C = ?C"
    by (rule dedup_seen_id) (simp_all add: drop_duplicates_distinct)
  have "drop_duplicates (?C @ ?N2) = ?C"
    unfolding drop_duplicates_def [of "?C @ ?N2"] dedup_seen_append
    by (simp only: cov idC append_Nil2)
  with C C2 show ?thesis by (simp only:)
qed

lemma merge_again:
  assumes "B \<noteq> []"
  shows "combined_df (merge_batch (save_to_excel st Excel_written B f d) B f d)
           = combined_df (merge_batch st B f d)"
  using assms by (intro merge_again_gen load_existing_save scan_directory_save)

text \<open>
  On a file system whose sheets are read as they were written, a run with the batch
  \<open>B\<close>, repeated on the file system the first run left, writes the same
  \<^verbatim>\<open>All Contributors\<close> rows again.
\<close>

lemma merge_idempotent_as_written:
  "sheet_rows (save_to_excel (save_to_excel st Excel_written B f d) Excel_written B f d) f
     = sheet_rows (save_to_excel st Excel_written B f d) f"
proof (cases "B = []")
  case True
  then show ?thesis by (simp add: save_to_excel_def)
next
  case False
  then show ?thesis
    by (simp add: sheet_rows_def files_save_written all_contributors_build merge_again)
qed



text \<open>The rows of that example, computed.\<close>

lemma merge_example_rows:
  "sheet_rows (save_to_excel
                  (store_with ''out.xlsx''
                     [sample_row ''alice'' ''a@old.org'', sample_row ''bob'' ''b@old.org''])
                  Excel_written
                  [sample_row ''bob'' ''b@new.org'', sample_row ''carol'' ''c@new.org'']
                  ''out.xlsx'' None) ''out.xlsx''
     = Some [sample_row ''alice'' ''a@old.org'', sample_row ''bob'' ''b@old.org'',
             sample_row ''carol'' ''c@new.org'']"
  by code_simp

section \<open>The sheet as it is read back\<close>

lemma read_text_idem [simp]: "read_text (read_text c) = read_text c"
  by (cases c) (simp_all add: read_text_def)

lemma read_row_idem [simp]: "read_row (read_row r) = read_row r"
  by (simp add: read_row_def)

lemma read_excel_idem [simp]: "read_excel (read_excel sheet) = read_excel sheet"
  by (simp add: read_excel_def)

lemma read_file_idem [simp]: "read_file (read_file f) = read_file f"
  by (cases f) (simp_all add: read_file_def)

lemma username_read_row: "username (read_row r) = read_text (username r)"
  by (simp add: read_row_def)

lemma as_read_fields [simp]:
  "listdir (as_read st) = listdir st" "abspath (as_read st) = abspath st"
  "files (as_read st) p = map_option read_file (files st p)"
  by (simp_all add: as_read_def)

text \<open>
  Claim C1 at the login \<^verbatim>\<open>null\<close>, saved by two runs to a target that did not exist. The
  second run reads the sheet of the first with the username missing, so its exclusion
  set is empty, the batch row passes the filter, and the final deduplication keeps both
  the row read and the row of the batch: the sheet written holds two rows of the one
  contributor, and it reads back with the username missing in both.
\<close>

theorem null_login_holds_two_rows:
  "sheet_rows
     (save_runs_on_disk empty_store ''out.xlsx'' None
        [(Excel_written, [sample_row ''null'' ''n@x.org'']),
         (Excel_written, [sample_row ''null'' ''n@x.org''])]) ''out.xlsx''
     = Some [(sample_row ''null'' ''n@x.org'')\<lparr>username := None\<rparr>,
             sample_row ''null'' ''n@x.org'']
   \<and> map username
         (read_excel [(sample_row ''null'' ''n@x.org'')\<lparr>username := None\<rparr>,
                      sample_row ''null'' ''n@x.org'']) = [None, None]
   \<and> map email
         (read_excel [(sample_row ''null'' ''n@x.org'')\<lparr>username := None\<rparr>,
                      sample_row ''null'' ''n@x.org'']) = [Some ''n@x.org'', Some ''n@x.org'']"
  by code_simp

text \<open>
  Claim C2 at the login \<^verbatim>\<open>NA\<close>: the first run writes one row, and the same batch saved
  again to the file the first run left writes two.
\<close>

theorem second_run_adds_row:
  "sheet_rows
     (save_to_excel_on_disk empty_store Excel_written [sample_row ''NA'' ''na@x.org'']
        ''out.xlsx'' None) ''out.xlsx''
     = Some [sample_row ''NA'' ''na@x.org'']
   \<and> sheet_rows
     (save_to_excel_on_disk
        (save_to_excel_on_disk empty_store Excel_written [sample_row ''NA'' ''na@x.org'']
           ''out.xlsx'' None)
        Excel_written [sample_row ''NA'' ''na@x.org''] ''out.xlsx'' None) ''out.xlsx''
     = Some [(sample_row ''NA'' ''na@x.org'')\<lparr>username := None\<rparr>,
             sample_row ''NA'' ''na@x.org'']"
  by code_simp

text \<open>
  What holds of the sheet as it is read back: it has no username twice when none of its
  usernames is a missing-value marker, and a repeated run writes the same sheet again
  when the sheet of the first run reads back as it was written.
\<close>

lemma sheet_reads_back_unique:
  assumes "distinct (map username sheet)"
    and "\<forall>r\<in>set sheet. \<forall>s. username r = Some s \<longrightarrow> s \<notin> set NA_VALUES"
  shows "distinct (map username (read_excel sheet))"
proof -
  have "username (read_row r) = username r" if "r \<in> set sheet" for r
    using that assms(2) by (cases "username r") (auto simp: username_read_row read_text_def)
  then have "map username (read_excel sheet) = map username sheet"
    by (simp add: read_excel_def)
  with assms(1) show ?thesis by simp
qed

lemma scan_directory_cong:
  assumes "listdir st' = listdir st" "abspath st' = abspath st"
    and "\<And>p. p \<in> set (excel_files st f d') \<Longrightarrow> files st' p = files st p"
  shows "scan_directory st' f (Some d') = scan_directory st f (Some d')"
proof -
  have ef: "excel_files st' f d' = excel_files st f d'"
    using assms(1,2) by (simp add: excel_files_def)
  have "scan_workbooks st' (excel_files st f d') a = scan_workbooks st (excel_files st f d') a"
    for a by (rule scan_workbooks_cong) (rule assms(3))
  then show ?thesis using assms(1) by (simp add: scan_directory_def ef)
qed

lemma merge_idempotent_on_disk:
  assumes nonempty: "B \<noteq> []"
    and first: "sheet_rows (save_to_excel_on_disk st Excel_written B f d) f = Some sheet"
    and stable: "read_excel sheet = sheet"
  shows "sheet_rows
           (save_to_excel_on_disk (save_to_excel_on_disk st Excel_written B f d)
              Excel_written B f d) f = Some sheet"
proof -
  let ?st0 = "as_read st"
  let ?st1 = "save_to_excel ?st0 Excel_written B f d"
  let ?C = "combined_df (merge_batch ?st0 B f d)"
  have w1: "files ?st1 f = Some (Workbook (build_workbook (merge_batch ?st0 B f d) d))"
    using nonempty by (rule files_save_written)
  with first have sheet: "sheet = ?C"
    by (simp add: save_to_excel_on_disk_def sheet_rows_def all_contributors_build)
  have E2: "load_existing (as_read ?st1) f = ?C"
    using w1 stable sheet
    by (simp add: load_existing_def read_file_def all_contributors_build)
  have D2: "scan_directory (as_read ?st1) f d = scan_directory ?st0 f d"
  proof (cases d)
    case None
    then show ?thesis by (simp add: scan_directory_def)
  next
    case (Some d')
    have "scan_directory (as_read ?st1) f (Some d') = scan_directory ?st0 f (Some d')"
    proof (rule scan_directory_cong)
      show "listdir (as_read ?st1) = listdir ?st0" by simp
      show "abspath (as_read ?st1) = abspath ?st0" by simp
      fix p assume "p \<in> set (excel_files ?st0 f d')"
      then have "p \<noteq> f" by (rule excel_files_not_target)
      then have "files ?st1 p = files ?st0 p" by (rule files_save_other)
      then show "files (as_read ?st1) p = files ?st0 p"
        by (simp add: option.map_comp comp_def)
    qed
    with Some show ?thesis by simp
  qed
  have "combined_df (merge_batch (as_read ?st1) B f d) = ?C"
    using E2 D2 by (rule merge_again_gen)
  then show ?thesis
    using nonempty sheet
    by (simp add: save_to_excel_on_disk_def sheet_rows_def files_save_written
        all_contributors_build)
qed

text \<open>When \<^verbatim>\<open>to_csv\<close> raises as well, no file holds the rows of the run.\<close>

lemma both_writes_fail:
  "B \<noteq> [] \<Longrightarrow>
   files (save_to_excel st (Both_fail leftover) B f d) = (files st)(f := leftover)
   \<and> save_raises (Both_fail leftover) B"
  by (simp add: save_to_excel_def Let_def save_raises_def)

section \<open>The estimate from the public events\<close>

lemma in_window_commits_append:
  "in_window_commits c (xs @ ys) = in_window_commits c xs + in_window_commits c ys"
  by (simp add: in_window_commits_def)

lemma in_window_commits_prefix:
  "prefix xs ys \<Longrightarrow> in_window_commits c xs \<le> in_window_commits c ys"
  by (auto simp: prefix_def in_window_commits_append)

lemma scan_events_char:
  "scan_events c t evs =
     (if \<exists>e\<in>set evs. old_push c e
      then Return (t + in_window_commits c (takeWhile (\<lambda>e. \<not> old_push c e) evs))
      else Continue (t + in_window_commits c evs))"
proof (induction evs arbitrary: t)
  case Nil
  then show ?case by (simp add: in_window_commits_def)
next
  case (Cons e es)
  show ?case
  proof (cases "ev_type e = ''PushEvent''")
    case push: True
    show ?thesis
    proof (cases "ev_created_at e \<ge> c")
      case True
      with push have "\<not> old_push c e" by (simp add: old_push_def)
      moreover have "in_window_commits c (e # xs) = length (ev_commits e) + in_window_commits c xs"
        for xs using push True by (simp add: in_window_commits_def)
      ultimately show ?thesis using push True Cons.IH [of "t + length (ev_commits e)"]
        by simp
    next
      case False
      with push have "old_push c e" by (simp add: old_push_def)
      then show ?thesis using push False by (simp add: in_window_commits_def)
    qed
  next
    case False
    then have "\<not> old_push c e" by (simp add: old_push_def)
    moreover have "in_window_commits c (e # xs) = in_window_commits c xs" for xs
      using False by (simp add: in_window_commits_def)
    ultimately show ?thesis using False Cons.IH [of t] by simp
  qed
qed

lemma events_loop_total:
  "events_loop E c u ps t = (calls, Inr n) \<Longrightarrow>
   n = t + in_window_commits c (takeWhile (\<lambda>e. \<not> old_push c e) (fetched E u ps))"
proof (induction ps arbitrary: t calls)
  case Nil
  then show ?case by (simp add: in_window_commits_def)
next
  case (Cons p ps)
  show ?case
  proof (cases "events_page E u p")
    case Raises
    with Cons.prems show ?thesis by simp
  next
    case Not_ok
    with Cons.prems show ?thesis by (simp add: page_events_def in_window_commits_def)
  next
    case (Ok_200 evs)
    then have pe: "page_events E u p = evs" by (simp add: page_events_def)
    show ?thesis
    proof (cases "evs = []")
      case True
      with Cons.prems Ok_200 pe show ?thesis by (simp add: in_window_commits_def)
    next
      case ne: False
      show ?thesis
      proof (cases "\<exists>e\<in>set evs. old_push c e")
        case True
        then have "scan_events c t evs
            = Return (t + in_window_commits c (takeWhile (\<lambda>e. \<not> old_push c e) evs))"
          by (simp add: scan_events_char)
        with Cons.prems Ok_200 ne
        have n: "n = t + in_window_commits c (takeWhile (\<lambda>e. \<not> old_push c e) evs)"
          by simp
        from True obtain x where "x \<in> set evs" "\<not> \<not> old_push c x" by auto
        then have "takeWhile (\<lambda>e. \<not> old_push c e) (evs @ fetched E u ps)
            = takeWhile (\<lambda>e. \<not> old_push c e) evs"
          by (rule takeWhile_append1)
        with n pe ne show ?thesis by simp
      next
        case False
        then have sc: "scan_events c t evs = Continue (t + in_window_commits c evs)"
          by (simp add: scan_events_char)
        obtain calls' r where rec: "events_loop E c u ps (t + in_window_commits c evs) = (calls', r)"
          by (cases "events_loop E c u ps (t + in_window_commits c evs)")
        with Cons.prems Ok_200 ne sc have "r = Inr n" by simp
        with rec Cons.IH
        have "n = t + in_window_commits c evs
            + in_window_commits c (takeWhile (\<lambda>e. \<not> old_push c e) (fetched E u ps))"
          by simp
        moreover from False
        have "takeWhile (\<lambda>e. \<not> old_push c e) (evs @ fetched E u ps)
            = evs @ takeWhile (\<lambda>e. \<not> old_push c e) (fetched E u ps)"
          by (intro takeWhile_append2) auto
        ultimately show ?thesis using pe ne by (simp add: in_window_commits_append)
      qed
    qed
  qed
qed

lemma events_loop_calls:
  "fst (events_loop E c u ps t) = map (Events_page u) (take (length (fst (events_loop E c u ps t))) ps)
   \<and> length (fst (events_loop E c u ps t)) \<le> length ps"
proof (induction ps arbitrary: t)
  case Nil
  then show ?case by simp
next
  case (Cons p ps)
  show ?case
  proof (cases "events_page E u p")
    case (Ok_200 evs)
    show ?thesis
    proof (cases "scan_events c t evs")
      case (Continue t')
      obtain calls' r where rec: "events_loop E c u ps t' = (calls', r)"
        by (cases "events_loop E c u ps t'")
      with Cons.IH [of t'] Ok_200 Continue show ?thesis by simp
    qed (simp add: Ok_200)
  qed simp_all
qed

lemma events_loop_early:
  "i < length ps \<Longrightarrow> \<exists>e\<in>set (page_events E u (ps ! i)). old_push c e \<Longrightarrow>
   length (fst (events_loop E c u ps t)) \<le> Suc i"
proof (induction ps arbitrary: t i)
  case Nil
  then show ?case by simp
next
  case (Cons p ps)
  show ?case
  proof (cases "events_page E u p")
    case (Ok_200 evs)
    then have pe: "page_events E u p = evs" by (simp add: page_events_def)
    show ?thesis
    proof (cases "scan_events c t evs")
      case (Continue t')
      then have no: "\<not> (\<exists>e\<in>set evs. old_push c e)"
        by (auto simp: scan_events_char split: if_splits)
      with Cons.prems pe obtain j where j: "i = Suc j" by (cases i) auto
      obtain calls' r where rec: "events_loop E c u ps t' = (calls', r)"
        by (cases "events_loop E c u ps t'")
      from Cons.prems j have "j < length ps" "\<exists>e\<in>set (page_events E u (ps ! j)). old_push c e"
        by simp_all
      then have "length (fst (events_loop E c u ps t')) \<le> Suc j" by (rule Cons.IH)
      with rec Ok_200 Continue j show ?thesis by simp
    qed (simp add: Ok_200)
  qed simp_all
qed

lemma fetched_prefix: "prefix (fetched E u ps) (concat (map (page_events E u) ps))"
  by (induction ps) auto

lemma feed_split: "3 \<le> m \<Longrightarrow> prefix (concat (map (page_events E u) [1, 2, 3])) (feed E u m)"
proof -
  assume m: "3 \<le> m"
  have "[1..<4 + (m - 3)] = [1..<4] @ [4..<4 + (m - 3)]"
    by (rule upt_add_eq_append) simp
  moreover have "[1..<4] = [1, 2, 3 :: nat]" by code_simp
  moreover have "4 + (m - 3) = Suc m" using m by simp
  ultimately have "[1..<Suc m] = [1, 2, 3] @ [4..<Suc m]" by (simp only:)
  then show ?thesis by (simp add: feed_def)
qed

lemma fetched_length:
  "(\<And>p. length (page_events E u p) \<le> k) \<Longrightarrow> length (fetched E u ps) \<le> length ps * k"
proof (induction ps)
  case Nil
  then show ?case by simp
next
  case (Cons p ps)
  then have "length (fetched E u ps) \<le> length ps * k" by simp
  moreover have "length (page_events E u p) \<le> k" by (rule Cons.prems)
  ultimately show ?case by simp
qed

text \<open>
  Claim C8, with the stop the code makes: when the estimate returns \<open>n\<close>, then \<open>n\<close> is the
  number of commits of the in-window push events that come before the first
  out-of-window push event among the events of the pages 1 to 3 (up to the first page
  that is empty or not served); \<open>n\<close> is at most the in-window commit count of the whole
  feed, however many pages it has; at most three pages are requested, in order; a page
  that holds an out-of-window push event is the last one requested; and with pages of at
  most 100 events at most 300 events are read. Events of other types are never dated.
\<close>

theorem events_estimate:
  assumes run: "get_commits_from_events E now u = (calls, Inr n)"
  shows "n = in_window_commits (cutoff now)
               (takeWhile (\<lambda>e. \<not> old_push (cutoff now) e) (fetched E u [1, 2, 3]))
         \<and> (3 \<le> m \<longrightarrow> n \<le> in_window_commits (cutoff now) (feed E u m))
         \<and> calls = map (Events_page u) (take (length calls) [1, 2, 3])
         \<and> length calls \<le> 3
         \<and> (\<forall>p\<in>{1, 2, 3}. (\<exists>e\<in>set (page_events E u p). old_push (cutoff now) e)
               \<longrightarrow> length calls \<le> p)
         \<and> ((\<forall>p. length (page_events E u p) \<le> 100) \<longrightarrow> length (fetched E u [1, 2, 3]) \<le> 300)"
proof -
  let ?c = "cutoff now"
  let ?scanned = "takeWhile (\<lambda>e. \<not> old_push ?c e) (fetched E u [1, 2, 3])"
  from run have loop: "events_loop E ?c u [1, 2, 3] 0 = (calls, Inr n)"
    by (simp add: get_commits_from_events_def)
  then have n: "n = in_window_commits ?c ?scanned"
    using events_loop_total [OF loop] by simp
  have "prefix ?scanned (fetched E u [1, 2, 3])" by (rule takeWhile_is_prefix)
  also have "prefix (fetched E u [1, 2, 3]) (concat (map (page_events E u) [1, 2, 3]))"
    by (rule fetched_prefix)
  finally have p3: "prefix ?scanned (concat (map (page_events E u) [1, 2, 3]))" .
  have le: "n \<le> in_window_commits ?c (feed E u m)" if "3 \<le> m"
  proof -
    from that have "prefix (concat (map (page_events E u) [1, 2, 3])) (feed E u m)"
      by (rule feed_split)
    with p3 have "prefix ?scanned (feed E u m)" by (rule prefix_order.trans)
    then show ?thesis unfolding n by (rule in_window_commits_prefix)
  qed
  from events_loop_calls [of E ?c u "[1, 2, 3]" 0] loop
  have calls: "calls = map (Events_page u) (take (length calls) [1, 2, 3])" "length calls \<le> 3"
    by simp_all
  have early: "length calls \<le> p"
    if "p \<in> {1, 2, 3}" "\<exists>e\<in>set (page_events E u p). old_push ?c e" for p :: nat
  proof -
    from that(1) obtain i where i: "p = Suc i" "i < length [1, 2, 3 :: nat]" "[1, 2, 3] ! i = p"
      by (cases "p = 1"; cases "p = 2") (auto intro: that)
    with that(2) have "\<exists>e\<in>set (page_events E u ([1, 2, 3] ! i)). old_push ?c e" by simp
    from events_loop_early [OF i(2) this, of 0] loop i(1) show ?thesis by simp
  qed
  have size: "length (fetched E u [1, 2, 3]) \<le> 300" if "\<forall>p. length (page_events E u p) \<le> 100"
    using fetched_length [of E u 100 "[1, 2, 3]"] that by simp
  from n le calls early size show ?thesis by blast
qed

theorem events_estimate_witness:
  "get_commits_from_events
     (feed_env [[push_event 39999000 2, push_event 1000 5], [push_event 39999500 7]])
     40000000 ''u'' = ([Events_page ''u'' 1], Inr 2)
   \<and> 2 = in_window_commits (cutoff 40000000)
           (takeWhile (\<lambda>e. \<not> old_push (cutoff 40000000) e)
              (fetched (feed_env [[push_event 39999000 2, push_event 1000 5],
                                  [push_event 39999500 7]]) ''u'' [1, 2, 3]))
   \<and> 2 \<le> in_window_commits (cutoff 40000000)
           (feed (feed_env [[push_event 39999000 2, push_event 1000 5],
                            [push_event 39999500 7]]) ''u'' 3)"
proof -
  have run: "get_commits_from_events
     (feed_env [[push_event 39999000 2, push_event 1000 5], [push_event 39999500 7]])
     40000000 ''u'' = ([Events_page ''u'' 1], Inr 2)"
    by code_simp
  from events_estimate [OF run, of 3] run show ?thesis by simp
qed

text \<open>
  The scan does not stop at an out-of-window event that is not a push event. In a feed
  ordered newest first, the estimate goes on to request the pages 2 and 3 after the old
  watch event of page 1, where the estimate as specified returns; in a feed that is not
  ordered, it counts the two commits that follow the old watch event.
\<close>

theorem events_estimate_counterexample:
  "get_commits_from_events
     (feed_env [[push_event 39999000 2, watch_event 1000], [watch_event 900]])
     40000000 ''u''
     = ([Events_page ''u'' 1, Events_page ''u'' 2, Events_page ''u'' 3], Inr 2)
   \<and> estimate_as_specified
     (feed_env [[push_event 39999000 2, watch_event 1000], [watch_event 900]])
     40000000 ''u''
     = ([Events_page ''u'' 1], Inr 2)
   \<and> get_commits_from_events
     (feed_env [[watch_event 1000, push_event 39999000 2]]) 40000000 ''u''
     = ([Events_page ''u'' 1, Events_page ''u'' 2], Inr 2)
   \<and> estimate_as_specified
     (feed_env [[watch_event 1000, push_event 39999000 2]]) 40000000 ''u''
     = ([Events_page ''u'' 1], Inr 0)"
  by code_simp

section \<open>Email discovery\<close>

lemma truthy_Some: "truthy v \<Longrightarrow> \<exists>e. v = Some e \<and> e \<noteq> []"
  by (cases v) (auto simp: truthy_def)

lemma first_valid_email_result:
  "snd (first_valid_email E r shas) = Some e \<Longrightarrow> e \<noteq> [] \<and> is_valid_email e"
proof (induction shas)
  case Nil
  then show ?case by simp
next
  case (Cons sha shas)
  obtain c em where g: "get_email_from_commit_api E r sha = (c, em)"
    by (cases "get_email_from_commit_api E r sha")
  obtain cs res where rec: "first_valid_email E r shas = (cs, res)"
    by (cases "first_valid_email E r shas")
  show ?case
  proof (cases "truthy em \<and> is_valid_email (the em)")
    case True
    with Cons.prems g have "em = Some e" by simp
    with True show ?thesis by (auto dest: truthy_Some)
  next
    case False
    with Cons.prems g rec have "res = Some e" by auto
    with Cons.IH rec show ?thesis by simp
  qed
qed

lemma first_valid_email_calls:
  "c \<in> set (fst (first_valid_email E r shas)) \<Longrightarrow> \<exists>sha. c = Commit_detail r sha"
proof (induction shas)
  case Nil
  then show ?case by simp
next
  case (Cons sha shas)
  obtain cs res where rec: "first_valid_email E r shas = (cs, res)"
    by (cases "first_valid_email E r shas")
  from Cons.prems rec have "c = Commit_detail r sha \<or> c \<in> set cs"
    by (auto simp: get_email_from_commit_api_def split: if_splits)
  with Cons.IH rec show ?case by auto
qed

lemma scans_of_details:
  "(\<And>c. c \<in> set cs \<Longrightarrow> \<exists>r sha. c = Commit_detail r sha) \<Longrightarrow> scans_of cs = []"
proof (induction cs)
  case Nil
  then show ?case by simp
next
  case (Cons c cs)
  from Cons.prems [of c] obtain r sha where "c = Commit_detail r sha" by auto
  moreover have "scans_of cs = []" using Cons.IH Cons.prems by simp
  ultimately show ?case by simp
qed

lemma scans_of_append: "scans_of (xs @ ys) = scans_of xs @ scans_of ys"
  by (induction xs rule: scans_of.induct) simp_all

lemma extract_calls:
  "c \<in> set (fst (extract_email_from_repo_commits E u r)) \<Longrightarrow>
   c = List_commits u r \<or> (\<exists>sha. c = Commit_detail r sha)"
proof -
  assume c: "c \<in> set (fst (extract_email_from_repo_commits E u r))"
  show ?thesis
  proof (cases "commits_by_author E u r")
    case (Ok_200 commits)
    obtain cs res where rec: "first_valid_email E r (rev commits) = (cs, res)"
      by (cases "first_valid_email E r (rev commits)")
    from c Ok_200 rec have "c = List_commits u r \<or> c \<in> set cs"
      by (auto simp: extract_email_from_repo_commits_def split: if_splits)
    with first_valid_email_calls [of c E r "rev commits"] rec show ?thesis by auto
  next
    case Raises
    with c show ?thesis by (simp add: extract_email_from_repo_commits_def)
  next
    case Not_ok
    with c show ?thesis by (simp add: extract_email_from_repo_commits_def)
  qed
qed

lemma scans_of_extract: "scans_of (fst (extract_email_from_repo_commits E u r)) = [r]"
proof (cases "commits_by_author E u r")
  case (Ok_200 commits)
  obtain cs res where rec: "first_valid_email E r (rev commits) = (cs, res)"
    by (cases "first_valid_email E r (rev commits)")
  have "scans_of cs = []"
  proof (rule scans_of_details)
    fix c assume "c \<in> set cs"
    with first_valid_email_calls [of c E r "rev commits"] rec
    show "\<exists>r sha. c = Commit_detail r sha" by auto
  qed
  with Ok_200 rec show ?thesis by (simp add: extract_email_from_repo_commits_def)
qed (simp_all add: extract_email_from_repo_commits_def)

lemma repo_email_valid: "repo_email E u r = Some e \<Longrightarrow> e \<noteq> [] \<and> is_valid_email e"
proof -
  assume a: "repo_email E u r = Some e"
  show ?thesis
  proof (cases "commits_by_author E u r")
    case (Ok_200 commits)
    obtain cs res where rec: "first_valid_email E r (rev commits) = (cs, res)"
      by (cases "first_valid_email E r (rev commits)")
    from a Ok_200 rec have "res = Some e"
      by (auto simp: repo_email_def extract_email_from_repo_commits_def split: if_splits)
    with first_valid_email_result [of E r "rev commits" e] rec show ?thesis by simp
  next
    case Raises
    with a show ?thesis by (simp add: repo_email_def extract_email_from_repo_commits_def)
  next
    case Not_ok
    with a show ?thesis by (simp add: repo_email_def extract_email_from_repo_commits_def)
  qed
qed

lemma truthy_repo_email: "truthy (repo_email E u r) \<longleftrightarrow> repo_email E u r \<noteq> None"
  by (cases "repo_email E u r") (auto simp: truthy_def dest: repo_email_valid)

lemma first_found_valid: "first_found E u rs = Some e \<Longrightarrow> e \<noteq> [] \<and> is_valid_email e"
  by (induction rs) (auto split: if_splits dest: repo_email_valid)

lemma first_found_None: "first_found E u rs = None \<longleftrightarrow> (\<forall>r\<in>set rs. repo_email E u r = None)"
  by (induction rs) (auto simp: truthy_repo_email)

lemma tried_None: "first_found E u rs = None \<Longrightarrow> tried E u rs = rs"
  by (induction rs) (auto simp: truthy_repo_email split: if_splits)

lemma first_found_append:
  "first_found E u (xs @ ys)
     = (case first_found E u xs of None \<Rightarrow> first_found E u ys | Some e \<Rightarrow> Some e)"
  by (induction xs) (auto simp: truthy_repo_email)

lemma tried_append:
  "tried E u (xs @ ys)
     = (case first_found E u xs of None \<Rightarrow> xs @ tried E u ys | Some e \<Rightarrow> tried E u xs)"
proof (induction xs)
  case Nil
  then show ?case by simp
next
  case (Cons a xs)
  then show ?case using truthy_repo_email [of E u a]
    by (cases "repo_email E u a") (auto split: option.splits)
qed

lemma tried_prefix: "prefix (tried E u rs) rs"
  by (induction rs) auto

text \<open>The three loops of the discovery, each against the list it scans.\<close>

lemma scan_calls_extract: "scan_calls u (fst (extract_email_from_repo_commits E u r))"
  unfolding scan_calls_def using extract_calls by blast

lemma scan_calls_append: "scan_calls u (xs @ ys) \<longleftrightarrow> scan_calls u xs \<and> scan_calls u ys"
  by (auto simp: scan_calls_def)

lemma scan_recent_char:
  "snd (scan_recent E u rs) = first_found E u rs
   \<and> scans_of (fst (scan_recent E u rs)) = tried E u rs
   \<and> scan_calls u (fst (scan_recent E u rs))"
proof (induction rs)
  case Nil
  then show ?case by (simp add: scan_calls_def)
next
  case (Cons r rs)
  obtain c em where x: "extract_email_from_repo_commits E u r = (c, em)"
    by (cases "extract_email_from_repo_commits E u r")
  then have em: "repo_email E u r = em" by (simp add: repo_email_def)
  from x have sc: "scans_of c = [r]" "scan_calls u c"
    using scans_of_extract [of E u r] scan_calls_extract [of u E r] by simp_all
  obtain cs res where rec: "scan_recent E u rs = (cs, res)" by (cases "scan_recent E u rs")
  with Cons.IH have ih: "res = first_found E u rs" "scans_of cs = tried E u rs" "scan_calls u cs"
    by simp_all
  show ?case using x em sc rec ih by (simp add: scans_of_append scan_calls_append)
qed

lemma scan_created_char:
  "i \<le> 9 \<Longrightarrow>
   snd (scan_created E u i rs) = first_found E u (take (10 - i) rs)
   \<and> scans_of (fst (scan_created E u i rs)) = tried E u (take (10 - i) rs)
   \<and> scan_calls u (fst (scan_created E u i rs))"
proof (induction rs arbitrary: i)
  case Nil
  then show ?case by (simp add: scan_calls_def)
next
  case (Cons r rs)
  obtain c em where x: "extract_email_from_repo_commits E u r = (c, em)"
    by (cases "extract_email_from_repo_commits E u r")
  then have em: "repo_email E u r = em" by (simp add: repo_email_def)
  from x have sc: "scans_of c = [r]" "scan_calls u c"
    using scans_of_extract [of E u r] scan_calls_extract [of u E r] by simp_all
  from Cons.prems obtain k where k: "10 - i = Suc k" by (cases "10 - i") auto
  show ?case
  proof (cases "truthy em")
    case True
    with x em sc k show ?thesis by simp
  next
    case False
    show ?thesis
    proof (cases "i \<ge> 9")
      case True
      with Cons.prems k have "k = 0" by simp
      with x em sc k False True show ?thesis by simp
    next
      case nine: False
      then have i': "i + 1 \<le> 9" "10 - (i + 1) = k" using k by simp_all
      obtain cs res where rec: "scan_created E u (i + 1) rs = (cs, res)"
        by (cases "scan_created E u (i + 1) rs")
      with Cons.IH [OF i'(1)] i'(2)
      have ih: "res = first_found E u (take k rs)" "scans_of cs = tried E u (take k rs)"
        "scan_calls u cs" by simp_all
      show ?thesis using x em sc k False nine rec ih
        by (simp add: scans_of_append scan_calls_append)
    qed
  qed
qed

lemma scan_pinned_char:
  "snd (scan_pinned E u rs None) = first_found E u rs
   \<and> scans_of (fst (scan_pinned E u rs None)) = tried E u rs
   \<and> scan_calls u (fst (scan_pinned E u rs None))"
proof (induction rs)
  case Nil
  then show ?case by (simp add: scan_calls_def)
next
  case (Cons r rs)
  obtain c em where x: "extract_email_from_repo_commits E u r = (c, em)"
    by (cases "extract_email_from_repo_commits E u r")
  then have em: "repo_email E u r = em" by (simp add: repo_email_def)
  from x have sc: "scans_of c = [r]" "scan_calls u c"
    using scans_of_extract [of E u r] scan_calls_extract [of u E r] by simp_all
  show ?case
  proof (cases "truthy em")
    case True
    with x em sc show ?thesis by simp
  next
    case False
    with em have "em = None" using truthy_repo_email [of E u r] by simp
    moreover obtain cs res where rec: "scan_pinned E u rs None = (cs, res)"
      by (cases "scan_pinned E u rs None")
    moreover from Cons.IH rec
    have "res = first_found E u rs" "scans_of cs = tried E u rs" "scan_calls u cs"
      by simp_all
    ultimately show ?thesis using x em sc False
      by (simp add: scans_of_append scan_calls_append)
  qed
qed

lemma scan_calls_no_pinned: "scan_calls u cs \<Longrightarrow> Pinned_profile v \<notin> set cs"
  by (auto simp: scan_calls_def)

lemma scan_calls_no_listing: "scan_calls u cs \<Longrightarrow> List_repos v q \<notin> set cs"
  by (auto simp: scan_calls_def)

lemma scans_of_Cons_other [simp]:
  "scans_of (List_repos u q # cs) = scans_of cs"
  "scans_of (Pinned_profile u # cs) = scans_of cs"
  by simp_all

lemma params_differ [simp]: "recent_params \<noteq> repos_params" "repos_params \<noteq> recent_params"
  by (simp_all add: recent_params_def repos_params_def)

lemma get_commit_email_char:
  assumes g: "get_commit_email_from_repo E u = (c, e)"
  shows "e = first_found E u (own_candidates E u)"
    and "scans_of c = tried E u (own_candidates E u)"
    and "Pinned_profile v \<notin> set c"
    and "List_repos u recent_params \<in> set c \<Longrightarrow>
           \<exists>repos. user_repos E u repos_params = Ok_200 repos \<and> first_found E u (take 10 repos) = None"
    and "\<exists>pre. c = List_repos u repos_params # pre \<and> (\<forall>x\<in>set pre. x = List_repos u recent_params \<or> scan_calls u [x])"
proof -
  have all: "e = first_found E u (own_candidates E u)
      \<and> scans_of c = tried E u (own_candidates E u)
      \<and> Pinned_profile v \<notin> set c
      \<and> (List_repos u recent_params \<in> set c \<longrightarrow>
           (\<exists>repos. user_repos E u repos_params = Ok_200 repos \<and> first_found E u (take 10 repos) = None))
      \<and> (\<exists>pre. c = List_repos u repos_params # pre \<and> (\<forall>x\<in>set pre. x = List_repos u recent_params \<or> scan_calls u [x]))"
  proof (cases "user_repos E u repos_params")
    case Raises
    with g show ?thesis by (auto simp: get_commit_email_from_repo_def own_candidates_def)
  next
    case Not_ok
    with g show ?thesis by (auto simp: get_commit_email_from_repo_def own_candidates_def)
  next
    case (Ok_200 repos)
    show ?thesis
    proof (cases "repos = []")
      case True
      with g Ok_200 show ?thesis
        by (auto simp: get_commit_email_from_repo_def own_candidates_def)
    next
      case ne: False
      obtain c1 e1 where s1: "scan_created E u 0 repos = (c1, e1)"
        by (cases "scan_created E u 0 repos")
      with scan_created_char [of 0 E u repos]
      have c1: "e1 = first_found E u (take 10 repos)" "scans_of c1 = tried E u (take 10 repos)"
        "scan_calls u c1" by simp_all
      have c1x: "\<forall>x\<in>set c1. scan_calls u [x]" using c1(3) by (auto simp: scan_calls_def)
      show ?thesis
      proof (cases "truthy e1")
        case True
        then obtain x where x: "e1 = Some x" by (auto dest: truthy_Some)
        from g Ok_200 ne s1 True have ce: "c = List_repos u repos_params # c1" "e = e1"
          by (simp_all add: get_commit_email_from_repo_def)
        from c1(1) x have ff: "first_found E u (take 10 repos) = Some x" by simp
        have "first_found E u (own_candidates E u) = e1"
          using Ok_200 ne x by (simp add: own_candidates_def first_found_append ff)
        moreover have "tried E u (own_candidates E u) = tried E u (take 10 repos)"
          using Ok_200 ne by (simp add: own_candidates_def tried_append ff)
        ultimately show ?thesis using ce c1 c1x
          by (auto simp: scan_calls_no_pinned scan_calls_no_listing)
      next
        case False
        have "e1 = None"
        proof (cases e1)
          case (Some x)
          with c1(1) have "x \<noteq> []" using first_found_valid [of E u "take 10 repos" x] by simp
          with Some False show ?thesis by (simp add: truthy_def)
        qed simp
        with c1(1) have none: "first_found E u (take 10 repos) = None" by simp
        then have t1: "tried E u (take 10 repos) = take 10 repos" by (rule tried_None)
        show ?thesis
        proof (cases "user_repos E u recent_params")
          case (Ok_200 recent) note rec = this
          obtain c2 e2 where s2: "scan_recent E u (take 5 recent) = (c2, e2)"
            by (cases "scan_recent E u (take 5 recent)")
          with scan_recent_char [of E u "take 5 recent"]
          have c2: "e2 = first_found E u (take 5 recent)" "scans_of c2 = tried E u (take 5 recent)"
            "scan_calls u c2" by simp_all
          have c2x: "\<forall>x\<in>set c2. scan_calls u [x]" using c2(3) by (auto simp: scan_calls_def)
          from g \<open>user_repos E u repos_params = Ok_200 repos\<close> ne s1 False rec s2
          have ce: "c = List_repos u repos_params # c1 @ List_repos u recent_params # c2" "e = e2"
            by (simp_all add: get_commit_email_from_repo_def)
          have "first_found E u (own_candidates E u) = e2"
            using \<open>user_repos E u repos_params = Ok_200 repos\<close> ne rec none c2(1)
            by (simp add: own_candidates_def first_found_append)
          moreover have "tried E u (own_candidates E u) = take 10 repos @ tried E u (take 5 recent)"
            using \<open>user_repos E u repos_params = Ok_200 repos\<close> ne rec none
            by (simp add: own_candidates_def tried_append)
          ultimately show ?thesis
            using ce c1 c2 c1x c2x t1 none \<open>user_repos E u repos_params = Ok_200 repos\<close>
            by (auto simp: scans_of_append scan_calls_no_pinned)
        next
          case Raises
          with g \<open>user_repos E u repos_params = Ok_200 repos\<close> ne s1 False
          have ce: "c = List_repos u repos_params # c1 @ [List_repos u recent_params]" "e = None"
            by (simp_all add: get_commit_email_from_repo_def)
          have "own_candidates E u = take 10 repos"
            using \<open>user_repos E u repos_params = Ok_200 repos\<close> ne Raises
            by (simp add: own_candidates_def)
          then show ?thesis
            using ce c1 c1x t1 none \<open>user_repos E u repos_params = Ok_200 repos\<close>
            by (auto simp: scans_of_append scan_calls_no_pinned)
        next
          case Not_ok
          with g \<open>user_repos E u repos_params = Ok_200 repos\<close> ne s1 False
          have ce: "c = List_repos u repos_params # c1 @ [List_repos u recent_params]" "e = None"
            by (simp_all add: get_commit_email_from_repo_def)
          have "own_candidates E u = take 10 repos"
            using \<open>user_repos E u repos_params = Ok_200 repos\<close> ne Not_ok
            by (simp add: own_candidates_def)
          then show ?thesis
            using ce c1 c1x t1 none \<open>user_repos E u repos_params = Ok_200 repos\<close>
            by (auto simp: scans_of_append scan_calls_no_pinned)
        qed
      qed
    qed
  qed
  from all show "e = first_found E u (own_candidates E u)" by blast
  from all show "scans_of c = tried E u (own_candidates E u)" by blast
  from all show "Pinned_profile v \<notin> set c" by blast
  from all show "List_repos u recent_params \<in> set c \<Longrightarrow>
           \<exists>repos. user_repos E u repos_params = Ok_200 repos \<and> first_found E u (take 10 repos) = None"
    by blast
  from all show "\<exists>pre. c = List_repos u repos_params # pre \<and> (\<forall>x\<in>set pre. x = List_repos u recent_params \<or> scan_calls u [x])"
    by blast
qed

text \<open>
  The order of email discovery. The repositories scanned are, in this order, up to 10 of
  the listing requested with \<open>repos_params\<close>, up to 5 of the listing requested with
  \<open>recent_params\<close>, and the pinned ones. When a scan among the first two groups yields an
  email, that first email is the result, the scans stop there and the pinned
  repositories are not asked for. Otherwise the pinned repositories are scanned up to
  the first that yields an email, which is then the result; when the scraper raises,
  its exception is the outcome. The second listing is requested only when no scan of
  the first group found an email, and the pinned repositories only when no scan of the
  first two groups did. An email returned is valid, and when every scan finds nothing
  and the scraper returns its list, the result is \<^verbatim>\<open>None\<close>.
\<close>

lemma email_discovery_char:
  assumes run: "discover_commit_email E u = (calls, res)"
  shows "(case first_found E u (own_candidates E u) of
            Some e \<Rightarrow>
              res = Inr (Some e) \<and> scans_of calls = tried E u (own_candidates E u)
              \<and> Pinned_profile u \<notin> set calls
          | None \<Rightarrow>
              (case pinned_repos E u of
                 Inl x \<Rightarrow> res = Inl x \<and> scans_of calls = own_candidates E u
               | Inr pinned \<Rightarrow>
                   res = Inr (first_found E u pinned)
                   \<and> scans_of calls = own_candidates E u @ tried E u pinned))
         \<and> (List_repos u recent_params \<in> set calls \<longrightarrow>
               (\<exists>repos. user_repos E u repos_params = Ok_200 repos
                  \<and> (\<forall>r\<in>set (take 10 repos). repo_email E u r = None)))
         \<and> (Pinned_profile u \<in> set calls \<longrightarrow>
               (\<forall>r\<in>set (own_candidates E u). repo_email E u r = None))
         \<and> (\<forall>e. res = Inr (Some e) \<longrightarrow> e \<noteq> [] \<and> is_valid_email e)
         \<and> ((\<forall>r\<in>set (own_candidates E u). repo_email E u r = None)
              \<and> (\<exists>pinned. pinned_repos E u = Inr pinned
                    \<and> (\<forall>r\<in>set pinned. repo_email E u r = None))
              \<longrightarrow> res = Inr None)"
proof -
  obtain c e where g: "get_commit_email_from_repo E u = (c, e)"
    by (cases "get_commit_email_from_repo E u")
  note ch = get_commit_email_char [OF g]
  let ?own = "own_candidates E u"
  have upd: "List_repos u recent_params \<in> set c \<Longrightarrow>
      \<exists>repos. user_repos E u repos_params = Ok_200 repos
         \<and> (\<forall>r\<in>set (take 10 repos). repo_email E u r = None)"
    using ch(4) by (auto simp: first_found_None)
  show ?thesis
  proof (cases "first_found E u ?own")
    case (Some x)
    with ch(1) have e: "e = Some x" by simp
    with run g have r: "calls = c" "res = Inr (Some x)"
      by (simp_all add: discover_commit_email_def)
    have v: "x \<noteq> [] \<and> is_valid_email x" using Some by (rule first_found_valid)
    have nn: "\<not> (\<forall>r\<in>set ?own. repo_email E u r = None)"
      using Some first_found_None [of E u ?own] by simp
    from r ch(2) ch(3) [of u] upd v nn Some show ?thesis by auto
  next
    case None
    with ch(1) have e: "e = None" by simp
    have own: "tried E u ?own = ?own" using None by (rule tried_None)
    have allnone: "\<forall>r\<in>set ?own. repo_email E u r = None"
      using None by (simp add: first_found_None)
    show ?thesis
    proof (cases "pinned_repos E u")
      case (Inl x)
      with run g e have r: "calls = c @ [Pinned_profile u]" "res = Inl x"
        by (simp_all add: discover_commit_email_def)
      from r ch(2) own upd allnone None Inl show ?thesis
        by (auto simp: scans_of_append)
    next
      case (Inr pinned)
      obtain c3 e3 where s3: "scan_pinned E u pinned None = (c3, e3)"
        by (cases "scan_pinned E u pinned None")
      with scan_pinned_char [of E u pinned]
      have c3: "e3 = first_found E u pinned" "scans_of c3 = tried E u pinned" "scan_calls u c3"
        by simp_all
      from run g e Inr s3 have r: "calls = c @ Pinned_profile u # c3" "res = Inr e3"
        by (simp_all add: discover_commit_email_def)
      have v: "\<And>x. e3 = Some x \<Longrightarrow> x \<noteq> [] \<and> is_valid_email x"
        using c3(1) first_found_valid [of E u pinned] by simp
      have ex: "(\<forall>r\<in>set pinned. repo_email E u r = None) \<Longrightarrow> e3 = None"
        using c3(1) by (simp add: first_found_None)
      have nl: "List_repos u recent_params \<notin> set c3" using c3(3) by (rule scan_calls_no_listing)
      from r c3 ch(2) own upd allnone None Inr v ex nl show ?thesis
        by (auto simp: scans_of_append)
    qed
  qed
qed

lemma email_discovery_example:
  "discover_commit_email
     (mail_env [''u/a'', ''u/b''] [''u/c''] [''x/p'']
        [(''x/p'', [(''s2'', Some ''me@home.org''),
                    (''s1'', Some ''u@users.noreply.github.com'')])]) ''u''
     = ([List_repos ''u'' repos_params, List_commits ''u'' ''u/a'', List_commits ''u'' ''u/b'',
         List_repos ''u'' recent_params, List_commits ''u'' ''u/c'', Pinned_profile ''u'',
         List_commits ''u'' ''x/p'', Commit_detail ''x/p'' ''s1'', Commit_detail ''x/p'' ''s2''],
        Inr (Some ''me@home.org''))
   \<and> is_valid_email ''me@home.org''
   \<and> repo_email
        (mail_env [''u/a'', ''u/b''] [''u/c''] [''x/p'']
           [(''x/p'', [(''s2'', Some ''me@home.org''),
                       (''s1'', Some ''u@users.noreply.github.com'')])]) ''u'' ''u/a'' = None"
proof -
  let ?E = "mail_env [''u/a'', ''u/b''] [''u/c''] [''x/p'']
        [(''x/p'', [(''s2'', Some ''me@home.org''),
                    (''s1'', Some ''u@users.noreply.github.com'')])]"
  have run: "discover_commit_email ?E ''u''
     = ([List_repos ''u'' repos_params, List_commits ''u'' ''u/a'', List_commits ''u'' ''u/b'',
         List_repos ''u'' recent_params, List_commits ''u'' ''u/c'', Pinned_profile ''u'',
         List_commits ''u'' ''x/p'', Commit_detail ''x/p'' ''s1'', Commit_detail ''x/p'' ''s2''],
        Inr (Some ''me@home.org''))"
    by code_simp
  have own: "own_candidates ?E ''u'' = [''u/a'', ''u/b'', ''u/c'']" by code_simp
  from email_discovery_char [OF run] own run show ?thesis by simp
qed

text \<open>
  Claim C5 at a user whose repositories yield no email and whose profile page cannot be
  fetched: \<^verbatim>\<open>get_pinned_repos\<close> raises, no handler stands between it and the handler
  of \<^verbatim>\<open>filter_contributors_for_repo\<close>, and the outcome of the discovery is the
  exception, not \<^verbatim>\<open>None\<close>. The scan of the repository then returns the empty list: the
  row of the contributor \<^verbatim>\<open>good\<close>, which the scan returns when \<^verbatim>\<open>bad\<close> is not listed,
  is lost with it. The first listing is requested with the type \<^verbatim>\<open>all\<close>, not
  \<^verbatim>\<open>owner\<close>, so that a repository the listing of type \<^verbatim>\<open>all\<close> alone holds is scanned
  as one of the user's.
\<close>

theorem scraper_exception_leaves_discovery:
  "discover_commit_email (scraper_env [] 0 ''bad'') ''bad''
     = ([List_repos ''bad'' repos_params, Pinned_profile ''bad''], Inl Request_exception)
   \<and> map username (snd (filter_contributors_for_repo
         (scraper_env [\<lparr>login = ''good'', contributions = 150, html_url = ''h1''\<rparr>] 500 ''bad'')
         0 ''https://github.com/o/r'' 100 400)) = [Some ''good'']
   \<and> snd (filter_contributors_for_repo
         (scraper_env [\<lparr>login = ''good'', contributions = 150, html_url = ''h1''\<rparr>,
                       \<lparr>login = ''bad'', contributions = 120, html_url = ''h2''\<rparr>] 500 ''bad'')
         0 ''https://github.com/o/r'' 100 400) = []
   \<and> q_type repos_params = ''all''
   \<and> discover_commit_email
        (mail_env [''org/shared''] [''u/mine''] []
           [(''org/shared'', [(''s1'', Some ''u@corp.org'')])]) ''u''
     = ([List_repos ''u'' repos_params, List_commits ''u'' ''org/shared'',
         Commit_detail ''org/shared'' ''s1''], Inr (Some ''u@corp.org''))"
  by code_simp

section \<open>The scan of a repository\<close>

lemma about_Nil [simp]: "about u []"
  by (simp add: about_def)

lemma about_append [simp]: "about u (xs @ ys) \<longleftrightarrow> about u xs \<and> about u ys"
  by (auto simp: about_def)

lemma about_Cons [simp]:
  "about u (c # cs) \<longleftrightarrow> (call_user c = None \<or> call_user c = Some u) \<and> about u cs"
  by (auto simp: about_def)

lemma about_events_loop: "about u (fst (events_loop E c u ps t))"
proof (induction ps arbitrary: t)
  case Nil
  then show ?case by simp
next
  case (Cons p ps)
  show ?case
  proof (cases "events_page E u p")
    case (Ok_200 evs)
    show ?thesis
    proof (cases "scan_events c t evs")
      case (Continue t')
      obtain calls' r where rec: "events_loop E c u ps t' = (calls', r)"
        by (cases "events_loop E c u ps t'")
      with Cons.IH [of t'] Ok_200 Continue show ?thesis by simp
    qed (simp add: Ok_200)
  qed simp_all
qed

lemma about_events: "about u (fst (get_commits_from_events E now u))"
  unfolding get_commits_from_events_def by (rule about_events_loop)

lemma about_fallback: "about u (fst (fallback_in_try E now u))"
proof -
  obtain c1 r1 where g: "get_commits_from_events E now u = (c1, r1)"
    by (cases "get_commits_from_events E now u")
  with about_events [of u E now] have "about u c1" by simp
  with g show ?thesis by (cases r1) (simp_all add: fallback_in_try_def)
qed

lemma fst_as_int [simp]: "fst (as_int cr) = fst cr"
  by (simp add: as_int_def)

lemma about_yearly: "about u (fst (get_user_contributions_last_year E now u))"
proof (cases "has_token E")
  case False
  then show ?thesis by (simp add: get_user_contributions_last_year_def about_events)
next
  case True
  have a: "about u (fst (as_int (get_commits_from_events E now u)))"
    "about u (fst (as_int (fallback_in_try E now u)))"
    by (simp_all add: about_events about_fallback)
  obtain c1 r1 where g1: "as_int (get_commits_from_events E now u) = (c1, r1)"
    by (cases "as_int (get_commits_from_events E now u)")
  obtain c2 r2 where g2: "as_int (fallback_in_try E now u) = (c2, r2)"
    by (cases "as_int (fallback_in_try E now u)")
  from a g1 g2 have "about u c1" "about u c2" by simp_all
  with True g1 g2 show ?thesis
    by (simp add: get_user_contributions_last_year_def
        split: response.splits graphql.splits)
qed

lemma about_profile: "about u (fst (get_user_profile E u))"
  by (simp add: get_user_profile_def)

lemma scan_calls_about: "scan_calls u cs \<Longrightarrow> about u cs"
  by (auto simp: scan_calls_def about_def)

lemma about_commit_email: "about u (fst (get_commit_email_from_repo E u))"
proof -
  obtain c e where g: "get_commit_email_from_repo E u = (c, e)"
    by (cases "get_commit_email_from_repo E u")
  from get_commit_email_char(5) [OF g] obtain pre
    where pre: "c = List_repos u repos_params # pre"
      "\<forall>x\<in>set pre. x = List_repos u recent_params \<or> scan_calls u [x]" by blast
  have "about u pre" unfolding about_def
  proof
    fix x assume "x \<in> set pre"
    with pre(2) have "x = List_repos u recent_params \<or> scan_calls u [x]" by blast
    then show "call_user x = None \<or> call_user x = Some u"
      by (auto dest: scan_calls_about)
  qed
  with pre(1) g show ?thesis by simp
qed

lemma about_discover: "about u (fst (discover_commit_email E u))"
proof -
  obtain c e where g: "get_commit_email_from_repo E u = (c, e)"
    by (cases "get_commit_email_from_repo E u")
  with about_commit_email [of u E] have c: "about u c" by simp
  show ?thesis
  proof (cases "e = None")
    case False
    with g c show ?thesis by (auto simp: discover_commit_email_def)
  next
    case True
    show ?thesis
    proof (cases "pinned_repos E u")
      case (Inl x)
      with g c True show ?thesis by (simp add: discover_commit_email_def)
    next
      case (Inr pinned)
      obtain c3 e3 where s3: "scan_pinned E u pinned None = (c3, e3)"
        by (cases "scan_pinned E u pinned None")
      with scan_pinned_char [of E u pinned] have "about u c3"
        by (simp add: scan_calls_about)
      with g c True Inr s3 show ?thesis by (simp add: discover_commit_email_def)
    qed
  qed
qed

lemma qualify_facts:
  "about (login k) (fst (qualify E now url full my k))
   \<and> (\<forall>r. snd (qualify E now url full my k) = Inr (Some r) \<longrightarrow>
         username r = Some (login k) \<and> repo_contributions r = Some (contributions k))"
proof -
  let ?u = "login k"
  obtain c1 y where g1: "get_user_contributions_last_year E now ?u = (c1, y)"
    by (cases "get_user_contributions_last_year E now ?u")
  obtain c2 p where g2: "get_user_profile E ?u = (c2, p)" by (cases "get_user_profile E ?u")
  obtain c3 m where g3: "discover_commit_email E ?u = (c3, m)"
    by (cases "discover_commit_email E ?u")
  have a: "about ?u c1" "about ?u c2" "about ?u c3"
    using about_yearly [of ?u E now] about_profile [of ?u E] about_discover [of ?u E] g1 g2 g3
    by simp_all
  show ?thesis using g1 g2 g3 a
    by (auto simp: qualify_def Let_def make_row_def split: sum.splits)
qed

lemma on_behalf_set: "(b, c) \<in> set (on_behalf u cs) \<longleftrightarrow> b = Some u \<and> c \<in> set cs"
  by (auto simp: on_behalf_def)

lemma qualify_all_log:
  "(b, c) \<in> set (fst (qualify_all E now url full my ks acc)) \<Longrightarrow>
   \<exists>k\<in>set ks. b = Some (login k) \<and> (call_user c = None \<or> call_user c = Some (login k))"
proof (induction ks arbitrary: acc)
  case Nil
  then show ?case by simp
next
  case (Cons k ks)
  obtain cs res where q: "qualify E now url full my k = (cs, res)"
    by (cases "qualify E now url full my k")
  with qualify_facts [of k E now url full my] have ab: "about (login k) cs" by simp
  have here: "(b, c) \<in> set (on_behalf (login k) cs) \<Longrightarrow> ?case"
    using ab by (auto simp: on_behalf_set about_def)
  show ?case
  proof (cases res)
    case (Inl x)
    with Cons.prems q here show ?thesis by simp
  next
    case (Inr ro)
    let ?acc' = "case ro of None \<Rightarrow> acc | Some r \<Rightarrow> acc @ [r]"
    obtain l r where rec: "qualify_all E now url full my ks ?acc' = (l, r)"
      by (cases "qualify_all E now url full my ks ?acc'")
    from Cons.prems q Inr rec have "(b, c) \<in> set (on_behalf (login k) cs) \<or> (b, c) \<in> set l"
      by (cases ro) auto
    then show ?thesis
    proof
      assume "(b, c) \<in> set (on_behalf (login k) cs)"
      then show ?thesis by (rule here)
    next
      assume "(b, c) \<in> set l"
      with rec Cons.IH [of ?acc'] show ?thesis by auto
    qed
  qed
qed

lemma qualify_all_rows:
  "snd (qualify_all E now url full my ks acc) = Inr rows \<Longrightarrow> r \<in> set rows \<Longrightarrow>
   r \<in> set acc \<or>
   (\<exists>k\<in>set ks. username r = Some (login k) \<and> repo_contributions r = Some (contributions k))"
proof (induction ks arbitrary: acc)
  case Nil
  then show ?case by simp
next
  case (Cons k ks)
  obtain cs res where q: "qualify E now url full my k = (cs, res)"
    by (cases "qualify E now url full my k")
  show ?case
  proof (cases res)
    case (Inl x)
    with Cons.prems q show ?thesis by simp
  next
    case (Inr ro)
    let ?acc' = "case ro of None \<Rightarrow> acc | Some r \<Rightarrow> acc @ [r]"
    obtain l res' where rec: "qualify_all E now url full my ks ?acc' = (l, res')"
      by (cases "qualify_all E now url full my ks ?acc'")
    from Cons.prems(1) q Inr rec have "res' = Inr rows" by (cases ro) auto
    with rec Cons.IH [of ?acc'] Cons.prems(2)
    have "r \<in> set ?acc' \<or>
      (\<exists>k\<in>set ks. username r = Some (login k) \<and> repo_contributions r = Some (contributions k))"
      by simp
    moreover have "r \<in> set ?acc' \<Longrightarrow> r \<in> set acc \<or>
      (username r = Some (login k) \<and> repo_contributions r = Some (contributions k))"
      using qualify_facts [of k E now url full my] q Inr by (cases ro) auto
    ultimately show ?thesis by auto
  qed
qed

text \<open>
  Claim C7: when every entry of the listing that carries the login \<open>u\<close> has fewer
  contributions than the threshold, the scan of the repository sends no request on
  behalf of \<open>u\<close> and no request about \<open>u\<close> (no yearly lookup, no profile fetch, no listing
  of repositories or commits, no scrape of pinned repositories), and no row of the
  result has the username \<open>u\<close>. Every row of the result has a contribution count at or
  above the threshold. The listing is gone through once, so there is no second attempt.
\<close>

theorem below_threshold_never_reached:
  assumes low: "\<forall>c\<in>set (listed_for E url). login c = u \<longrightarrow> contributions c < min_repo"
  shows "u \<notin> served (fst (filter_contributors_for_repo E now url min_repo min_yearly))
         \<and> (\<forall>(b, c)\<in>set (fst (filter_contributors_for_repo E now url min_repo min_yearly)).
               call_user c \<noteq> Some u)
         \<and> Some u \<notin> username ` set (snd (filter_contributors_for_repo E now url min_repo min_yearly))
         \<and> (\<forall>r\<in>set (snd (filter_contributors_for_repo E now url min_repo min_yearly)).
               \<exists>n. repo_contributions r = Some n \<and> min_repo \<le> n)"
proof -
  let ?run = "filter_contributors_for_repo E now url min_repo min_yearly"
  obtain po pr where parse: "parse_repo_url url = (po, pr)" by (cases "parse_repo_url url")
  have trivial: ?thesis if "fst ?run = [] \<or> (\<exists>o' r'. fst ?run = [(None, List_contributors o' r')])"
    "snd ?run = []"
    using that by (auto simp: served_def)
  show ?thesis
  proof (cases "\<exists>owner repo listed. po = Some owner \<and> pr = Some repo \<and> owner \<noteq> [] \<and> repo \<noteq> []
                  \<and> repo_contributors E owner repo = Inr listed")
    case False
    have "(fst ?run = [] \<or> (\<exists>o' r'. fst ?run = [(None, List_contributors o' r')])) \<and> snd ?run = []"
      using False parse
      by (cases po; cases pr)
         (auto simp: filter_contributors_for_repo_def split: sum.splits)
    then show ?thesis using trivial by blast
  next
    case True
    then obtain owner repo listed where p: "po = Some owner" "pr = Some repo"
      "owner \<noteq> []" "repo \<noteq> []" "repo_contributors E owner repo = Inr listed" by blast
    let ?high = "filter (\<lambda>c. contributions c \<ge> min_repo) listed"
    obtain l res where qa: "qualify_all E now url (owner @ ''/'' @ repo) min_yearly ?high [] = (l, res)"
      by (cases "qualify_all E now url (owner @ ''/'' @ repo) min_yearly ?high []")
    have run: "?run = ((None, List_contributors owner repo) # l,
                       case res of Inl x \<Rightarrow> [] | Inr q \<Rightarrow> q)"
      using parse p qa by (simp add: filter_contributors_for_repo_def)
    have listed: "listed_for E url = listed" using parse p by (simp add: listed_for_def)
    have high: "\<And>k. k \<in> set ?high \<Longrightarrow> login k \<noteq> u \<and> min_repo \<le> contributions k"
      using low listed by auto
    have logs: "\<And>b c. (b, c) \<in> set l \<Longrightarrow> b \<noteq> Some u \<and> call_user c \<noteq> Some u"
    proof -
      fix b c assume "(b, c) \<in> set l"
      with qualify_all_log [of b c E now url "owner @ ''/'' @ repo" min_yearly ?high "[]"] qa
      obtain k where "k \<in> set ?high" "b = Some (login k)"
        "call_user c = None \<or> call_user c = Some (login k)" by auto
      with high [of k] show "b \<noteq> Some u \<and> call_user c \<noteq> Some u" by auto
    qed
    have rows: "\<And>r. r \<in> set (snd ?run) \<Longrightarrow>
        username r \<noteq> Some u \<and> (\<exists>n. repo_contributions r = Some n \<and> min_repo \<le> n)"
    proof -
      fix r assume r: "r \<in> set (snd ?run)"
      then obtain rows where res: "res = Inr rows" "r \<in> set rows"
        using run by (cases res) auto
      with qualify_all_rows [of E now url "owner @ ''/'' @ repo" min_yearly ?high "[]" rows r] qa
      obtain k where "k \<in> set ?high" "username r = Some (login k)"
        "repo_contributions r = Some (contributions k)" by auto
      with high [of k] show "username r \<noteq> Some u \<and> (\<exists>n. repo_contributions r = Some n \<and> min_repo \<le> n)"
        by auto
    qed
    have "u \<notin> served (fst ?run)" using logs run by (auto simp: served_def)
    moreover have "\<forall>(b, c)\<in>set (fst ?run). call_user c \<noteq> Some u" using logs run by auto
    moreover have "Some u \<notin> username ` set (snd ?run)" using rows by force
    moreover have "\<forall>r\<in>set (snd ?run). \<exists>n. repo_contributions r = Some n \<and> min_repo \<le> n"
      using rows by blast
    ultimately show ?thesis by blast
  qed
qed

theorem below_threshold_never_reached_witness:
  "''small'' \<notin> served (fst (filter_contributors_for_repo
        (team_env [\<lparr>login = ''big'', contributions = 150, html_url = ''h1''\<rparr>,
                   \<lparr>login = ''small'', contributions = 5, html_url = ''h2''\<rparr>] 500)
        0 ''https://github.com/o/r'' 100 400))
   \<and> Some ''small'' \<notin> username ` set (snd (filter_contributors_for_repo
        (team_env [\<lparr>login = ''big'', contributions = 150, html_url = ''h1''\<rparr>,
                   \<lparr>login = ''small'', contributions = 5, html_url = ''h2''\<rparr>] 500)
        0 ''https://github.com/o/r'' 100 400))
   \<and> map username (snd (filter_contributors_for_repo
        (team_env [\<lparr>login = ''big'', contributions = 150, html_url = ''h1''\<rparr>,
                   \<lparr>login = ''small'', contributions = 5, html_url = ''h2''\<rparr>] 500)
        0 ''https://github.com/o/r'' 100 400)) = [Some ''big'']"
proof -
  let ?E = "team_env [\<lparr>login = ''big'', contributions = 150, html_url = ''h1''\<rparr>,
                      \<lparr>login = ''small'', contributions = 5, html_url = ''h2''\<rparr>] 500"
  have "listed_for ?E ''https://github.com/o/r''
      = [\<lparr>login = ''big'', contributions = 150, html_url = ''h1''\<rparr>,
         \<lparr>login = ''small'', contributions = 5, html_url = ''h2''\<rparr>]"
    by code_simp
  then have low: "\<forall>c\<in>set (listed_for ?E ''https://github.com/o/r'').
      login c = ''small'' \<longrightarrow> contributions c < 100"
    by simp
  have rows: "map username (snd (filter_contributors_for_repo ?E 0 ''https://github.com/o/r'' 100 400))
      = [Some ''big'']"
    by code_simp
  from below_threshold_never_reached [OF low, of 0 400] rows show ?thesis by blast
qed

section \<open>The fallback file of a target named \<^verbatim>\<open>.xlsx\<close>\<close>

lemma replace_from_drop: "replace_from k old new s = replace_from 0 old new (drop k s)"
proof (induction s arbitrary: k)
  case Nil
  then show ?case by simp
next
  case (Cons c cs)
  show ?case
  proof (cases k)
    case 0
    then show ?thesis by simp
  next
    case (Suc j)
    with Cons.IH [of j] show ?thesis by simp
  qed
qed

lemma str_replace_Cons:
  "str_replace old new (c # cs) =
     (if old \<noteq> [] \<and> prefix old (c # cs)
      then new @ str_replace old new (drop (length old) (c # cs))
      else c # str_replace old new cs)"
proof (cases "old \<noteq> [] \<and> prefix old (c # cs)")
  case True
  then obtain k where k: "length old = Suc k" by (cases old) auto
  have "replace_from k old new cs = replace_from 0 old new (drop k cs)"
    by (rule replace_from_drop)
  with True k show ?thesis by (simp add: str_replace_def)
next
  case False
  then show ?thesis by (auto simp: str_replace_def)
qed

lemma str_replace_length:
  "length old \<le> length new \<Longrightarrow> length s \<le> length (str_replace old new s)"
proof (induction "length s" arbitrary: s rule: less_induct)
  case less
  show ?case
  proof (cases s)
    case Nil
    then show ?thesis by simp
  next
    case (Cons c cs)
    show ?thesis
    proof (cases "old \<noteq> [] \<and> prefix old (c # cs)")
      case True
      then have lo: "0 < length old" "length old \<le> length (c # cs)"
        by (auto dest: prefix_length_le)
      let ?rest = "drop (length old) (c # cs)"
      have "length ?rest < length s" using lo Cons by simp
      then have "length ?rest \<le> length (str_replace old new ?rest)"
        using less.hyps less.prems by blast
      moreover have "length ?rest = length (c # cs) - length old" by simp
      ultimately have "length (c # cs) \<le> length new + length (str_replace old new ?rest)"
        using less.prems lo by linarith
      with True Cons show ?thesis by (simp add: str_replace_Cons)
    next
      case False
      have "length cs \<le> length (str_replace old new cs)"
        using less.hyps [of cs] less.prems Cons by simp
      with False Cons show ?thesis by (auto simp: str_replace_Cons)
    qed
  qed
qed

lemma str_replace_longer:
  "length old < length new \<Longrightarrow> old \<noteq> [] \<Longrightarrow> str_contains old s \<Longrightarrow>
   length s < length (str_replace old new s)"
proof (induction s)
  case Nil
  then show ?case by simp
next
  case (Cons c cs)
  show ?case
  proof (cases "prefix old (c # cs)")
    case True
    then have lo: "length old \<le> length (c # cs)" by (rule prefix_length_le)
    let ?rest = "drop (length old) (c # cs)"
    have "length ?rest \<le> length (str_replace old new ?rest)"
      using Cons.prems(1) by (intro str_replace_length) simp
    moreover have "length ?rest = length (c # cs) - length old" by simp
    ultimately have "length (c # cs) < length new + length (str_replace old new ?rest)"
      using Cons.prems(1) lo by linarith
    with True Cons.prems(2) show ?thesis by (simp add: str_replace_Cons)
  next
    case False
    with Cons.prems have "str_contains old cs" by simp
    with Cons.IH Cons.prems have "length cs < length (str_replace old new cs)" by simp
    with False show ?thesis by (simp add: str_replace_Cons)
  qed
qed

text \<open>
  For a target whose name contains \<^verbatim>\<open>.xlsx\<close> the fallback name is longer than the
  name of the target, hence another name, and the fallback file holds the combined rows
  of the run.
\<close>

lemma csv_fallback_when_xlsx:
  assumes "str_contains ''.xlsx'' f" and "B \<noteq> []"
  shows "csv_filename f \<noteq> f"
    and "files (save_to_excel st (Excel_fails leftover) B f d) (csv_filename f)
           = Some (Csv_file (combined_df (merge_batch st B f d)))"
proof -
  have "length f < length (csv_filename f)"
    unfolding csv_filename_def using assms(1) by (intro str_replace_longer) simp_all
  then show "csv_filename f \<noteq> f" by auto
  show "files (save_to_excel st (Excel_fails leftover) B f d) (csv_filename f)
           = Some (Csv_file (combined_df (merge_batch st B f d)))"
    using assms(2) by (rule files_save_failed)
qed

end
